theory Spec2Isabelle
  imports Main "HOL-Library.Sublist"
begin

section \<open>The serial line and the clock\<close>

text \<open>
  The routines of \<^verbatim>\<open>esp_at_stream_util.ts\<close> talk to two collaborators that are not part
  of the repository: the serial receive buffer (\<^verbatim>\<open>serial.readBuffer\<close>) and the
  millisecond clock (\<^verbatim>\<open>input.runningTime\<close>). A byte is a \<^typ>\<open>char\<close> (HOL characters are
  exactly the values 0..255), so a target string is the list of its UTF-8 bytes and
  \<^verbatim>\<open>Buffer.fromUTF8\<close> is the identity.

  The world holds the bytes that have not been read yet, in arrival order, and two
  oracles: for every future call of \<^verbatim>\<open>readBuffer\<close> the number of pending bytes that have
  arrived by then, and for every future call of \<^verbatim>\<open>runningTime\<close> the value it returns.
  A call that finds its oracle used up returns \<open>None\<close>: the run is longer than the
  described behaviour of the environment, and nothing is known about its result.
\<close>

type_synonym byte = char

record world =
  stream :: "byte list"
  avail :: "nat list"
  clock :: "int list"

text \<open>
  \<^verbatim>\<open>serial.readBuffer(0)\<close> hands over every byte that has arrived, possibly none;
  \<^verbatim>\<open>serial.readBuffer(1)\<close> hands over at most one.
\<close>

definition readBuffer :: "nat \<Rightarrow> world \<Rightarrow> (byte list \<times> world) option" where
  "readBuffer len w =
     (case avail w of
        [] \<Rightarrow> None
      | a # as \<Rightarrow>
          (let n = (if len = 0 then a else min len a)
           in Some (take n (stream w), w\<lparr>stream := drop n (stream w), avail := as\<rparr>)))"

definition runningTime :: "world \<Rightarrow> (int \<times> world) option" where
  "runningTime w =
     (case clock w of
        [] \<Rightarrow> None
      | t # ts \<Rightarrow> Some (t, w\<lparr>clock := ts\<rparr>))"

text \<open>
  Indexing a buffer: inside its bounds the byte, outside \<^verbatim>\<open>undefined\<close>, which is
  different from every byte under \<^verbatim>\<open>===\<close> and equal to itself.
\<close>

definition nth_opt :: "'a list \<Rightarrow> nat \<Rightarrow> 'a option" where
  "nth_opt xs i = (if i < length xs then Some (xs ! i) else None)"

text \<open>A thrown string.\<close>

datatype fault = Throw string

text \<open>The outcome of scanning some bytes: an early \<^verbatim>\<open>return\<close>, or the state carried on.\<close>

datatype ('r, 's) scan = Return 'r | Carry 's

section \<open>The recovery loops shared by both matchers\<close>

text \<open>
  The innermost loop, lines 48--52 and 102--106:
  \<^verbatim>\<open>for (k = 0; k < offset; k++) { if (byte_target[k] !== byte_target[k + offset_diff]) break; }\<close>
  Its value is the final \<open>k\<close>.
\<close>

function prefix_scan :: "byte list \<Rightarrow> nat \<Rightarrow> nat \<Rightarrow> nat \<Rightarrow> nat" where
  "prefix_scan byte_target offset_diff offset k =
     (if k < offset then
        (if nth_opt byte_target k \<noteq> nth_opt byte_target (k + offset_diff) then k
         else prefix_scan byte_target offset_diff offset (k + 1))
      else k)"
  by pat_completeness auto
termination
  by (relation "measure (\<lambda>(byte_target, offset_diff, offset, k). offset - k)") auto

declare prefix_scan.simps [simp del]

text \<open>
  The \<^verbatim>\<open>while (offset > 0)\<close> loop, lines 37--57 and 91--111, for the byte \<open>b = data[i]\<close>.
  The argument \<open>offset\<close> is the loop variable on entry of an iteration; the value of the
  function is the loop variable when the loop is left.
\<close>

function backtrack :: "byte list \<Rightarrow> byte \<Rightarrow> nat \<Rightarrow> nat \<Rightarrow> nat" where
  "backtrack byte_target b original_offset offset =
     (if offset > 0 then
        (let offset1 = offset - 1 in
         if Some b \<noteq> nth_opt byte_target offset1 then
           backtrack byte_target b original_offset offset1
         else if offset1 = 0 then offset1 + 1
         else
           (let offset_diff = original_offset - offset1;
                k = prefix_scan byte_target offset_diff offset1 0
            in if k = offset1 then offset1 + 1
               else backtrack byte_target b original_offset offset1))
      else offset)"
  by pat_completeness auto
termination
  by (relation "measure (\<lambda>(byte_target, b, original_offset, offset). offset)") auto

declare backtrack.simps [simp del]

section \<open>singleFindUtil\<close>

text \<open>
  One pass of the body of \<^verbatim>\<open>for (let i = 0; i < data.length; i++)\<close>, lines 82--111: the
  byte either completes the target (\<^verbatim>\<open>return true\<close>) or leaves a new offset.
\<close>

definition single_byte :: "byte list \<Rightarrow> nat \<Rightarrow> byte \<Rightarrow> (bool, nat) scan" where
  "single_byte byte_target offset b =
     (if Some b = nth_opt byte_target offset then
        (let offset1 = offset + 1 in
         if offset1 = length byte_target then Return True else Carry offset1)
      else Carry (backtrack byte_target b offset offset))"

fun single_data :: "byte list \<Rightarrow> nat \<Rightarrow> byte list \<Rightarrow> (bool, nat) scan" where
  "single_data byte_target offset [] = Carry offset"
| "single_data byte_target offset (b # data) =
     (case single_byte byte_target offset b of
        Return r \<Rightarrow> Return r
      | Carry offset1 \<Rightarrow> single_data byte_target offset1 data)"

text \<open>The \<^verbatim>\<open>do ... while (input.runningTime() < end_time)\<close> loop, lines 79--113.\<close>

function singleFind_loop :: "byte list \<Rightarrow> int \<Rightarrow> nat \<Rightarrow> world \<Rightarrow> (bool \<times> world) option" where
  "singleFind_loop byte_target end_time offset w =
     (case readBuffer 0 w of
        None \<Rightarrow> None
      | Some (data, w1) \<Rightarrow>
          (case single_data byte_target offset data of
             Return r \<Rightarrow> Some (r, w1)
           | Carry offset1 \<Rightarrow>
               (case runningTime w1 of
                  None \<Rightarrow> None
                | Some (now, w2) \<Rightarrow>
                    if now < end_time then singleFind_loop byte_target end_time offset1 w2
                    else Some (False, w2))))"
  by pat_completeness auto
termination
  by (relation "measure (\<lambda>(byte_target, end_time, offset, w). length (avail w))")
     (auto simp: readBuffer_def runningTime_def Let_def split: list.splits)

declare singleFind_loop.simps [simp del]

text \<open>
  The whole call. \<^verbatim>\<open>!target\<close> holds for the empty string; the timeout is taken as an
  integer number of milliseconds.
\<close>

definition singleFindUtil :: "string \<Rightarrow> int \<Rightarrow> world \<Rightarrow> ((fault + bool) \<times> world) option" where
  "singleFindUtil target timeout_ms w =
     (if target = [] \<or> timeout_ms < 0 then
        Some (Inl (Throw ''Error: 'singleFindUtil' function, invalid parameters.''), w)
      else
        (case runningTime w of
           None \<Rightarrow> None
         | Some (now, w0) \<Rightarrow>
             (case singleFind_loop target (now + timeout_ms) 0 w0 of
                None \<Rightarrow> None
              | Some (r, w1) \<Rightarrow> Some (Inr r, w1))))"

section \<open>multiFindUtil\<close>

text \<open>
  The loop \<^verbatim>\<open>for (let j = 0; j < byte_targets.length; j++)\<close>, lines 21--58, for the byte
  \<open>b = data[i]\<close>. On a mismatch with a positive offset the \<^verbatim>\<open>while\<close> loop runs on the local
  variable \<^verbatim>\<open>offset\<close>; the loop body ends there, and \<^verbatim>\<open>offsets[j]\<close> is assigned on line 30
  only.
\<close>

function multi_targets :: "byte list list \<Rightarrow> byte \<Rightarrow> nat list \<Rightarrow> nat \<Rightarrow> (nat, nat list) scan" where
  "multi_targets byte_targets b offsets j =
     (if j < length byte_targets then
        (let byte_target = byte_targets ! j;
             offset = offsets ! j
         in if Some b = nth_opt byte_target offset then
              (let offset1 = offset + 1 in
               if offset1 = length byte_target then Return j
               else multi_targets byte_targets b (offsets[j := offset1]) (j + 1))
            else if offset = 0 then multi_targets byte_targets b offsets (j + 1)
            else
              (let offset2 = backtrack byte_target b offset offset
               in multi_targets byte_targets b offsets (j + 1)))
      else Carry offsets)"
  by pat_completeness auto
termination
  by (relation "measure (\<lambda>(byte_targets, b, offsets, j). length byte_targets - j)") auto

declare multi_targets.simps [simp del]

fun multi_data :: "byte list list \<Rightarrow> nat list \<Rightarrow> byte list \<Rightarrow> (nat, nat list) scan" where
  "multi_data byte_targets offsets [] = Carry offsets"
| "multi_data byte_targets offsets (b # data) =
     (case multi_targets byte_targets b offsets 0 of
        Return j \<Rightarrow> Return j
      | Carry offsets1 \<Rightarrow> multi_data byte_targets offsets1 data)"

text \<open>The \<^verbatim>\<open>do ... while\<close> loop, lines 18--61, and the \<^verbatim>\<open>return -1\<close> after it.\<close>

function multiFind_loop :: "byte list list \<Rightarrow> int \<Rightarrow> nat list \<Rightarrow> world \<Rightarrow> (int \<times> world) option" where
  "multiFind_loop byte_targets end_time offsets w =
     (case readBuffer 0 w of
        None \<Rightarrow> None
      | Some (data, w1) \<Rightarrow>
          (case multi_data byte_targets offsets data of
             Return j \<Rightarrow> Some (int j, w1)
           | Carry offsets1 \<Rightarrow>
               (case runningTime w1 of
                  None \<Rightarrow> None
                | Some (now, w2) \<Rightarrow>
                    if now < end_time then multiFind_loop byte_targets end_time offsets1 w2
                    else Some (- 1, w2))))"
  by pat_completeness auto
termination
  by (relation "measure (\<lambda>(byte_targets, end_time, offsets, w). length (avail w))")
     (auto simp: readBuffer_def runningTime_def Let_def split: list.splits)

declare multiFind_loop.simps [simp del]

text \<open>
  The whole call. The guard of line 9 looks at the list and the timeout only; the
  offsets start as one 0 for each target.
\<close>

definition multiFindUtil :: "string list \<Rightarrow> int \<Rightarrow> world \<Rightarrow> ((fault + int) \<times> world) option" where
  "multiFindUtil targets timeout_ms w =
     (if targets = [] \<or> timeout_ms < 0 then
        Some (Inl (Throw ''Error: 'multiFindUtil' function, invalid parameters.''), w)
      else
        (let byte_targets = targets;
             offsets = replicate (length byte_targets) 0
         in case runningTime w of
              None \<Rightarrow> None
            | Some (now, w0) \<Rightarrow>
                (case multiFind_loop byte_targets (now + timeout_ms) offsets w0 of
                   None \<Rightarrow> None
                 | Some (r, w1) \<Rightarrow> Some (Inr r, w1))))"

section \<open>parseNumber\<close>

text \<open>
  A JavaScript number as far as \<^verbatim>\<open>parseNumber\<close> produces one. \<^verbatim>\<open>parseInt\<close> returns a
  double: \<^verbatim>\<open>NaN\<close>, a finite double whose value is an integer (\<open>Num\<close>), negative zero, or
  an infinity.
\<close>

datatype number = NaN | Num int | NegZero | PosInfinity | NegInfinity

text \<open>
  \<^verbatim>\<open>"0" <= char && char <= "9"\<close> compares one-character strings, that is, character
  codes.
\<close>

definition is_digit :: "char \<Rightarrow> bool" where
  "is_digit c \<longleftrightarrow> (48::nat) \<le> of_char c \<and> (of_char c :: nat) \<le> 57"

text \<open>The mathematical integer written by a run of decimal digits.\<close>

definition decimal :: "string \<Rightarrow> int" where
  "decimal ds = foldl (\<lambda>v c. 10 * v + (of_char c - 48)) 0 ds"

text \<open>The number of binary digits of a positive integer.\<close>

function bit_length :: "int \<Rightarrow> nat" where
  "bit_length n = (if n \<le> 0 then 0 else 1 + bit_length (n div 2))"
  by pat_completeness auto
termination
  by (relation "measure nat") auto

declare bit_length.simps [simp del]

text \<open>
  The double that stands for an integer that is not negative: the integer itself below
  \<open>2 ^ 53\<close>; otherwise the nearest number with a significand of 53 binary digits, the
  even significand on a tie; \<open>None\<close>, that is an infinity, when this is \<open>2 ^ 1024\<close> or more.
\<close>

definition to_double :: "int \<Rightarrow> int option" where
  "to_double v =
     (if v < 2 ^ 53 then Some v
      else
        (let e = bit_length v - 53;
             q = v div 2 ^ e;
             r = v mod 2 ^ e;
             q1 = (if 2 ^ e < 2 * r \<or> (2 * r = 2 ^ e \<and> odd q) then q + 1 else q);
             d = q1 * 2 ^ e
         in if 2 ^ 1024 \<le> d then None else Some d))"

text \<open>
  The built-in \<^verbatim>\<open>parseInt\<close> on a text without white space or radix prefix: an optional
  minus sign, then the longest run of decimal digits; \<^verbatim>\<open>NaN\<close> when that run is empty,
  otherwise the double that stands for the signed integer written. (The language
  definition lets an implementation read digits after the 20th as 0; this is the reading
  that keeps them.)
\<close>

definition parseInt :: "string \<Rightarrow> number" where
  "parseInt s =
     (let neg = (s \<noteq> [] \<and> hd s = CHR ''-'');
          ds = takeWhile is_digit (if neg then tl s else s)
      in if ds = [] then NaN
         else
           (case to_double (decimal ds) of
              None \<Rightarrow> if neg then NegInfinity else PosInfinity
            | Some v \<Rightarrow>
                if neg then (if v = 0 then NegZero else Num (- v))
                else Num v))"

text \<open>\<^verbatim>\<open>basic.pause\<close> lets time pass; the time that passes is part of the clock oracle.\<close>

definition pause :: "nat \<Rightarrow> world \<Rightarrow> world" where
  "pause ms w = w"

text \<open>
  The condition of line 158: the byte is taken into the text when it is a minus sign and
  the text is empty, or when it is a digit.
\<close>

definition accepted :: "string \<Rightarrow> char \<Rightarrow> bool" where
  "accepted num_str ch \<longleftrightarrow> (ch = CHR ''-'' \<and> num_str = []) \<or> is_digit ch"

text \<open>
  The \<^verbatim>\<open>do ... while\<close> loop of lines 151--166 and the \<^verbatim>\<open>return NaN\<close> after it.
  \<^verbatim>\<open>continue\<close> in a \<^verbatim>\<open>do ... while\<close> goes to the test of the loop condition.
\<close>

function parse_loop :: "int \<Rightarrow> string \<Rightarrow> world \<Rightarrow> (number \<times> world) option" where
  "parse_loop end_time num_str w =
     (case readBuffer 1 w of
        None \<Rightarrow> None
      | Some (data, w1) \<Rightarrow>
          if data = [] then
            (case runningTime (pause 1 w1) of
               None \<Rightarrow> None
             | Some (now, w2) \<Rightarrow>
                 if now < end_time then parse_loop end_time num_str w2
                 else Some (NaN, w2))
          else
            (let ch = hd data in
             if accepted num_str ch then
               (case runningTime w1 of
                  None \<Rightarrow> None
                | Some (now, w2) \<Rightarrow>
                    if now < end_time then parse_loop end_time (num_str @ [ch]) w2
                    else Some (NaN, w2))
             else if num_str \<noteq> [] \<and> num_str \<noteq> ''-'' then Some (parseInt num_str, w1)
             else Some (NaN, w1)))"
  by pat_completeness auto
termination
  by (relation "measure (\<lambda>(end_time, num_str, w). length (avail w))")
     (auto simp: readBuffer_def runningTime_def pause_def Let_def split: list.splits)

declare parse_loop.simps [simp del]

definition parseNumber :: "int \<Rightarrow> world \<Rightarrow> ((fault + number) \<times> world) option" where
  "parseNumber timeout_ms w =
     (if timeout_ms < 0 then
        Some (Inl (Throw ''Error: 'parseNumber' function, invalid parameters.''), w)
      else
        (case runningTime w of
           None \<Rightarrow> None
         | Some (now, w0) \<Rightarrow>
             (case parse_loop (now + timeout_ms) [] w0 of
                None \<Rightarrow> None
              | Some (r, w1) \<Rightarrow> Some (Inr r, w1))))"

section \<open>Notions used in the statements\<close>

subsection \<open>Stored offsets of the multi-target matcher\<close>

text \<open>
  A byte completes a target at a stored offset when it is the byte expected there and the
  last one of the target: the test of lines 25--27 that leads to \<^verbatim>\<open>return j\<close>.
\<close>

definition completes :: "byte list \<Rightarrow> nat \<Rightarrow> byte \<Rightarrow> bool" where
  "completes byte_target offset b \<longleftrightarrow>
     Some b = nth_opt byte_target offset \<and> offset + 1 = length byte_target"

text \<open>What one byte does to an entry of \<^verbatim>\<open>offsets\<close> when no target completes.\<close>

definition stored_step :: "byte list \<Rightarrow> nat \<Rightarrow> byte \<Rightarrow> nat" where
  "stored_step byte_target offset b =
     (if Some b = nth_opt byte_target offset then offset + 1 else offset)"

subsection \<open>Recovery after a mismatch\<close>

text \<open>
  The offsets the \<^verbatim>\<open>while\<close> loop accepts: \<open>offset'\<close> is at most the old offset, the byte is
  the last one of the prefix of length \<open>offset'\<close>, and the rest of that prefix, of length
  \<open>offset' - 1\<close>, ends the run matched so far.
\<close>

definition recovery_candidate :: "byte list \<Rightarrow> nat \<Rightarrow> byte \<Rightarrow> nat \<Rightarrow> bool" where
  "recovery_candidate pattern offset b offset' \<longleftrightarrow>
     0 < offset' \<and> offset' \<le> offset \<and> pattern ! (offset' - 1) = b \<and>
     take (offset' - 1) pattern = drop (offset - (offset' - 1)) (take offset pattern)"

text \<open>
  The condition as the specification words it: \<open>offset'\<close> strictly below the old offset,
  and the whole prefix of length \<open>offset'\<close> compared with the end of the matched run.
\<close>

definition claimed_candidate :: "byte list \<Rightarrow> nat \<Rightarrow> byte \<Rightarrow> nat \<Rightarrow> bool" where
  "claimed_candidate pattern offset b offset' \<longleftrightarrow>
     0 < offset' \<and> offset' < offset \<and> pattern ! (offset' - 1) = b \<and>
     take offset' pattern = drop (offset - offset') (take offset pattern)"

subsection \<open>Prefixes of the pattern that end the consumed bytes\<close>

definition border :: "byte list \<Rightarrow> byte list \<Rightarrow> nat \<Rightarrow> bool" where
  "border pattern consumed k \<longleftrightarrow> k \<le> length pattern \<and> suffix (take k pattern) consumed"

definition longest_border :: "byte list \<Rightarrow> byte list \<Rightarrow> nat \<Rightarrow> bool" where
  "longest_border pattern consumed s \<longleftrightarrow>
     border pattern consumed s \<and> (\<forall>k. border pattern consumed k \<longrightarrow> k \<le> s)"

subsection \<open>What the environment has handed over\<close>

text \<open>
  The bytes returned by the first \<open>k\<close> calls of \<^verbatim>\<open>readBuffer(0)\<close>, and the world after
  \<open>reads\<close> such calls and \<open>ticks\<close> calls of \<^verbatim>\<open>runningTime\<close>.
\<close>

definition delivered :: "world \<Rightarrow> nat \<Rightarrow> byte list" where
  "delivered w k = take (sum_list (take k (avail w))) (stream w)"

definition consume :: "nat \<Rightarrow> nat \<Rightarrow> world \<Rightarrow> world" where
  "consume reads ticks w =
     \<lparr>stream = drop (sum_list (take reads (avail w))) (stream w),
      avail = drop reads (avail w),
      clock = drop ticks (clock w)\<rparr>"

text \<open>The number of the first \<open>k\<close> calls of \<^verbatim>\<open>readBuffer(1)\<close> that find a byte waiting.\<close>

definition arrivals :: "world \<Rightarrow> nat \<Rightarrow> nat" where
  "arrivals w k = length (filter (\<lambda>a. 0 < a) (take k (avail w)))"

subsection \<open>The text of a number\<close>

text \<open>Every byte of \<open>cs\<close> is taken into the text, one after the other, starting from \<open>num_str\<close>.\<close>

fun all_accepted :: "string \<Rightarrow> string \<Rightarrow> bool" where
  "all_accepted num_str [] = True"
| "all_accepted num_str (c # cs) = (accepted num_str c \<and> all_accepted (num_str @ [c]) cs)"

text \<open>The value returned on a terminating byte, lines 161--164.\<close>

definition scan_result :: "string \<Rightarrow> number" where
  "scan_result num_str = (if num_str \<noteq> [] \<and> num_str \<noteq> ''-'' then parseInt num_str else NaN)"

text \<open>
  The integer written by a run of decimal digits, as the sum of its digits times their
  powers of ten; the magnitude of an optional minus sign followed by digits; and the number
  such a text writes: the integer with its sign, negative zero for a negated 0.
\<close>

definition digit_value :: "char \<Rightarrow> int" where
  "digit_value c = of_char c - 48"

definition positional :: "string \<Rightarrow> int" where
  "positional ds =
     sum_list (map (\<lambda>i. digit_value (ds ! i) * 10 ^ (length ds - 1 - i)) [0..<length ds])"

definition magnitude :: "string \<Rightarrow> int" where
  "magnitude ds = positional (if hd ds = CHR ''-'' then tl ds else ds)"

definition written :: "string \<Rightarrow> number" where
  "written ds =
     (if hd ds = CHR ''-'' then (if magnitude ds = 0 then NegZero else Num (- magnitude ds))
      else Num (magnitude ds))"

section \<open>One byte against all targets\<close>

text \<open>
  When the loop over the targets runs to its end, every entry of \<^verbatim>\<open>offsets\<close> has gone up
  by one on a match and is otherwise what it was; no target completed on the byte.
\<close>

lemma multi_targets_Carry:
  "multi_targets ts b offs j0 = Carry offs1 \<Longrightarrow> length offs = length ts \<Longrightarrow>
   length offs1 = length ts \<and>
   (\<forall>j < length ts. offs1 ! j = (if j0 \<le> j then stored_step (ts ! j) (offs ! j) b else offs ! j)) \<and>
   (\<forall>j < length ts. j0 \<le> j \<longrightarrow> \<not> completes (ts ! j) (offs ! j) b)"
proof (induction ts b offs j0 rule: multi_targets.induct)
  case (1 ts b offs j0)
  show ?case
  proof (cases "j0 < length ts")
    case False
    with "1.prems" show ?thesis
      by (simp add: multi_targets.simps [of ts b offs j0])
  next
    case True
    note j0 = True
    show ?thesis
    proof (cases "Some b = nth_opt (ts ! j0) (offs ! j0)")
      case True
      note m = True
      from "1.prems"(1) j0 m have ne: "offs ! j0 + 1 \<noteq> length (ts ! j0)"
        by (auto simp: multi_targets.simps [of ts b offs j0] Let_def split: if_splits)
      with "1.prems"(1) j0 m
      have rec: "multi_targets ts b (offs[j0 := offs ! j0 + 1]) (j0 + 1) = Carry offs1"
        by (simp add: multi_targets.simps [of ts b offs j0] Let_def)
      have IH: "length offs1 = length ts \<and>
         (\<forall>j<length ts. offs1 ! j = (if j0 + 1 \<le> j then stored_step (ts ! j) (offs[j0 := offs ! j0 + 1] ! j) b
               else offs[j0 := offs ! j0 + 1] ! j)) \<and>
         (\<forall>j<length ts. j0 + 1 \<le> j \<longrightarrow> \<not> completes (ts ! j) (offs[j0 := offs ! j0 + 1] ! j) b)"
        using "1.IH"(1) [OF j0 refl refl m refl ne rec] "1.prems"(2) by simp
      show ?thesis
      proof (intro conjI allI impI)
        show "length offs1 = length ts" using IH by simp
      next
        fix j assume j: "j < length ts"
        show "offs1 ! j = (if j0 \<le> j then stored_step (ts ! j) (offs ! j) b else offs ! j)"
        proof (cases "j = j0")
          case True
          with IH j "1.prems"(2) m show ?thesis by (simp add: stored_step_def)
        next
          case False
          with IH j "1.prems"(2) show ?thesis by (auto simp: nth_list_update)
        qed
      next
        fix j assume j: "j < length ts" "j0 \<le> j"
        show "\<not> completes (ts ! j) (offs ! j) b"
        proof (cases "j = j0")
          case True
          with ne show ?thesis by (simp add: completes_def)
        next
          case False
          with IH j show ?thesis by (auto simp: nth_list_update)
        qed
      qed
    next
      case False
      note m = False
      have rec: "multi_targets ts b offs (j0 + 1) = Carry offs1"
        using "1.prems"(1) j0 m
        by (simp add: multi_targets.simps [of ts b offs j0] Let_def split: if_splits)
      have IH: "length offs1 = length ts \<and>
         (\<forall>j<length ts. offs1 ! j = (if j0 + 1 \<le> j then stored_step (ts ! j) (offs ! j) b else offs ! j)) \<and>
         (\<forall>j<length ts. j0 + 1 \<le> j \<longrightarrow> \<not> completes (ts ! j) (offs ! j) b)"
      proof (cases "offs ! j0 = 0")
        case True
        show ?thesis using "1.IH"(2) [OF j0 refl refl m True rec] "1.prems"(2) by simp
      next
        case False
        show ?thesis using "1.IH"(3) [OF j0 refl refl m False refl rec] "1.prems"(2) by simp
      qed
      show ?thesis
      proof (intro conjI allI impI)
        show "length offs1 = length ts" using IH by simp
      next
        fix j assume j: "j < length ts"
        show "offs1 ! j = (if j0 \<le> j then stored_step (ts ! j) (offs ! j) b else offs ! j)"
        proof (cases "j = j0")
          case True
          with IH j m show ?thesis by (simp add: stored_step_def)
        next
          case False
          with IH j show ?thesis by auto
        qed
      next
        fix j assume j: "j < length ts" "j0 \<le> j"
        show "\<not> completes (ts ! j) (offs ! j) b"
        proof (cases "j = j0")
          case True
          with m show ?thesis by (simp add: completes_def)
        next
          case False
          with IH j show ?thesis by auto
        qed
      qed
    qed
  qed
qed

lemma multi_targets_Return:
  "multi_targets ts b offs j0 = Return j \<Longrightarrow> length offs = length ts \<Longrightarrow>
   j0 \<le> j \<and> j < length ts \<and> completes (ts ! j) (offs ! j) b \<and>
   (\<forall>i. j0 \<le> i \<and> i < j \<longrightarrow> \<not> completes (ts ! i) (offs ! i) b)"
proof (induction ts b offs j0 rule: multi_targets.induct)
  case (1 ts b offs j0)
  show ?case
  proof (cases "j0 < length ts")
    case False
    with "1.prems" show ?thesis
      by (simp add: multi_targets.simps [of ts b offs j0])
  next
    case True
    note j0 = True
    show ?thesis
    proof (cases "completes (ts ! j0) (offs ! j0) b")
      case True
      with "1.prems"(1) j0 have "j = j0"
        by (simp add: multi_targets.simps [of ts b offs j0] Let_def completes_def)
      with True j0 show ?thesis by auto
    next
      case False
      note nc = False
      have F: "j0 + 1 \<le> j \<and> j < length ts \<and> completes (ts ! j) (offs ! j) b \<and>
          (\<forall>i. j0 + 1 \<le> i \<and> i < j \<longrightarrow> \<not> completes (ts ! i) (offs ! i) b)"
      proof (cases "Some b = nth_opt (ts ! j0) (offs ! j0)")
        case True
        note m = True
        from nc m have ne: "offs ! j0 + 1 \<noteq> length (ts ! j0)"
          by (simp add: completes_def)
        with "1.prems"(1) j0 m
        have rec: "multi_targets ts b (offs[j0 := offs ! j0 + 1]) (j0 + 1) = Return j"
          by (simp add: multi_targets.simps [of ts b offs j0] Let_def)
        have upd: "offs[j0 := offs ! j0 + 1] ! i = offs ! i" if "j0 + 1 \<le> i" for i
          using that by simp
        have l: "length (offs[j0 := offs ! j0 + 1]) = length ts"
          using "1.prems"(2) by simp
        note IH = "1.IH"(1) [OF j0 refl refl m refl ne rec l]
        from IH have a: "j0 + 1 \<le> j" "j < length ts"
          and c: "completes (ts ! j) (offs[j0 := offs ! j0 + 1] ! j) b"
          and n: "\<And>i. j0 + 1 \<le> i \<and> i < j \<Longrightarrow> \<not> completes (ts ! i) (offs[j0 := offs ! j0 + 1] ! i) b"
          by blast+
        have "completes (ts ! j) (offs ! j) b"
          using c unfolding upd [OF a(1)] .
        moreover have "\<not> completes (ts ! i) (offs ! i) b" if i: "j0 + 1 \<le> i \<and> i < j" for i
        proof -
          from i have le: "j0 + 1 \<le> i" by simp
          from n [OF i] show ?thesis unfolding upd [OF le] .
        qed
        ultimately show ?thesis
          using a by blast
      next
        case False
        note m = False
        have rec: "multi_targets ts b offs (j0 + 1) = Return j"
          using "1.prems"(1) j0 m
          by (simp add: multi_targets.simps [of ts b offs j0] Let_def split: if_splits)
        show ?thesis
        proof (cases "offs ! j0 = 0")
          case True
          show ?thesis using "1.IH"(2) [OF j0 refl refl m True rec] "1.prems"(2) by simp
        next
          case False
          show ?thesis using "1.IH"(3) [OF j0 refl refl m False refl rec] "1.prems"(2) by simp
        qed
      qed
      show ?thesis
      proof (intro conjI allI impI)
        show "j0 \<le> j" using F by simp
        show "j < length ts" using F by simp
        show "completes (ts ! j) (offs ! j) b" using F by simp
      next
        fix i assume i: "j0 \<le> i \<and> i < j"
        show "\<not> completes (ts ! i) (offs ! i) b"
        proof (cases "i = j0")
          case True
          with nc show ?thesis by simp
        next
          case False
          with i have "j0 + 1 \<le> i" by simp
          with F i show ?thesis by blast
        qed
      qed
    qed
  qed
qed

lemma multi_targets_first:
  assumes "length offs = length ts" "j < length ts" "completes (ts ! j) (offs ! j) b"
    "\<forall>i<j. \<not> completes (ts ! i) (offs ! i) b"
  shows "multi_targets ts b offs 0 = Return j"
proof (cases "multi_targets ts b offs 0")
  case (Carry offs1)
  from multi_targets_Carry [OF Carry assms(1)] assms(2,3) show ?thesis by simp
next
  case (Return j')
  from multi_targets_Return [OF Return assms(1)]
  have j': "j' < length ts" "completes (ts ! j') (offs ! j') b"
    "\<forall>i. i < j' \<longrightarrow> \<not> completes (ts ! i) (offs ! i) b" by simp_all
  have "j' = j"
  proof (rule ccontr)
    assume "j' \<noteq> j"
    then consider "j' < j" | "j < j'" by linarith
    then show False
    proof cases
      case 1 with assms(4) j'(2) show False by simp
    next
      case 2 with j'(3) assms(3) show False by simp
    qed
  qed
  with Return show ?thesis by simp
qed

lemma multi_data_append:
  "multi_data ts offs (xs @ ys) =
     (case multi_data ts offs xs of Return j \<Rightarrow> Return j | Carry offs1 \<Rightarrow> multi_data ts offs1 ys)"
  by (induction xs arbitrary: offs) (simp_all split: scan.splits)

lemma multi_data_length:
  "multi_data ts offs xs = Carry offs1 \<Longrightarrow> length offs = length ts \<Longrightarrow> length offs1 = length ts"
proof (induction xs arbitrary: offs)
  case Nil
  then show ?case by simp
next
  case (Cons x xs)
  then show ?case
    by (auto split: scan.splits dest: multi_targets_Carry)
qed

text \<open>
  Claim C5. In \<^verbatim>\<open>multiFindUtil\<close>, when the stored offset of a target reaches its length on the
  current byte, the index of that target is returned at once. Let no target have completed
  on the bytes \<open>pre\<close>, and let \<open>j\<close> be the first index, in list order, whose target completes
  on the next byte \<open>b\<close>. Then the scan of \<open>pre @ b # post\<close> returns \<open>j\<close> whatever the later
  targets and the later bytes \<open>post\<close> are, and the loop returns \<open>j\<close> with the world left by
  the read that handed over these bytes: no further read and no further clock test takes
  place. The bytes \<open>post\<close>, handed over by the same read, are dropped without being looked at.
\<close>
theorem earliest_lowest_completion_wins:
  assumes "length offsets = length byte_targets"
    and "multi_data byte_targets offsets pre = Carry offsets1"
    and "j < length byte_targets"
    and "completes (byte_targets ! j) (offsets1 ! j) b"
    and "\<forall>i<j. \<not> completes (byte_targets ! i) (offsets1 ! i) b"
  shows "multi_data byte_targets offsets (pre @ b # post) = Return j \<and>
    (readBuffer 0 w = Some (pre @ b # post, w1) \<longrightarrow>
       multiFind_loop byte_targets end_time offsets w = Some (int j, w1))"
proof -
  have len: "length offsets1 = length byte_targets"
    using multi_data_length [OF assms(2,1)] .
  have "multi_targets byte_targets b offsets1 0 = Return j"
    using multi_targets_first [OF len assms(3,4,5)] .
  then have d: "multi_data byte_targets offsets (pre @ b # post) = Return j"
    by (simp add: multi_data_append assms(2))
  then show ?thesis
    by (simp add: multiFind_loop.simps [of byte_targets end_time offsets w])
qed

text \<open>
  Targets \<^verbatim>\<open>["A", "AB"]\<close> and input \<^verbatim>\<open>"AB"\<close>: index 0 is returned on the first byte.
\<close>
theorem earliest_lowest_completion_wins_witness:
  "multi_data [''A'', ''AB''] [0, 0] ([] @ CHR ''A'' # ''B'') = Return 0 \<and>
   multiFind_loop [''A'', ''AB''] 50 [0, 0] \<lparr>stream = ''AB'', avail = [2], clock = []\<rparr>
     = Some (0, \<lparr>stream = [], avail = [], clock = []\<rparr>) \<and>
   multiFindUtil [''A'', ''AB''] 50 \<lparr>stream = ''AB'', avail = [1, 1], clock = [0, 1, 2]\<rparr>
     = Some (Inr 0, \<lparr>stream = ''B'', avail = [1], clock = [1, 2]\<rparr>)"
proof -
  have r: "readBuffer 0 \<lparr>stream = ''AB'', avail = [2], clock = []\<rparr>
     = Some ([] @ CHR ''A'' # ''B'', \<lparr>stream = [], avail = [], clock = []\<rparr>)"
    by (simp add: readBuffer_def)
  have c: "completes ([''A'', ''AB''] ! 0) ([0, 0] ! 0) (CHR ''A'')"
    by (simp add: completes_def nth_opt_def)
  have u: "multiFindUtil [''A'', ''AB''] 50 \<lparr>stream = ''AB'', avail = [1, 1], clock = [0, 1, 2]\<rparr>
     = Some (Inr 0, \<lparr>stream = ''B'', avail = [1], clock = [1, 2]\<rparr>)"
    by code_simp
  show ?thesis
    using earliest_lowest_completion_wins [where offsets = "[0, 0]" and byte_targets = "[''A'', ''AB'']"
        and pre = "[]" and ?offsets1.0 = "[0, 0]" and j = 0 and b = "CHR ''A''" and post = "''B''"
        and w = "\<lparr>stream = ''AB'', avail = [2], clock = []\<rparr>"
        and ?w1.0 = "\<lparr>stream = [], avail = [], clock = []\<rparr>" and end_time = 50] r c u
    by simp
qed

text \<open>
  Claim C10. In \<^verbatim>\<open>multiFindUtil\<close>, a byte that does not match the target at its stored
  offset leaves the entry of \<^verbatim>\<open>offsets\<close> unchanged, also when the stored offset is positive and
  the \<^verbatim>\<open>while\<close> loop computes a recovered offset: that value stays in the local variable.
  An entry changes only by a match, which raises it by one.
\<close>
theorem mismatch_keeps_stored_offset:
  assumes "length offsets = length byte_targets"
    and "multi_targets byte_targets b offsets 0 = Carry offsets1"
    and "j < length byte_targets"
  shows "(Some b \<noteq> nth_opt (byte_targets ! j) (offsets ! j) \<longrightarrow> offsets1 ! j = offsets ! j) \<and>
         (Some b = nth_opt (byte_targets ! j) (offsets ! j) \<longrightarrow> offsets1 ! j = offsets ! j + 1)"
  using multi_targets_Carry [OF assms(2,1)] assms(3) by (simp add: stored_step_def)

text \<open>
  Target \<^verbatim>\<open>"ABC"\<close> with stored offset 2 and the byte \<^verbatim>\<open>"A"\<close>: the \<^verbatim>\<open>while\<close> loop computes 1, the
  entry stays 2.
\<close>
theorem mismatch_keeps_stored_offset_witness:
  "multi_targets [''ABC''] (CHR ''A'') [2] 0 = Carry [2] \<and>
   Some (CHR ''A'') \<noteq> nth_opt ([''ABC''] ! 0) ([2] ! 0) \<and>
   backtrack ''ABC'' (CHR ''A'') 2 2 = 1 \<and>
   [2 :: nat] ! 0 = [2] ! 0"
proof -
  have c: "multi_targets [''ABC''] (CHR ''A'') [2] 0 = Carry [2]"
    and b: "backtrack ''ABC'' (CHR ''A'') 2 2 = 1"
    by code_simp+
  have n: "Some (CHR ''A'') \<noteq> nth_opt ([''ABC''] ! 0) ([2] ! 0)"
    by (simp add: nth_opt_def)
  from mismatch_keeps_stored_offset [of "[2]" "[''ABC'']" "CHR ''A''" "[2]" 0, OF _ c] n
  have "[2 :: nat] ! 0 = [2] ! 0" by simp
  with c b n show ?thesis by simp
qed

section \<open>The recovery loops\<close>

text \<open>
  The inner \<^verbatim>\<open>for\<close> loop runs to its end exactly when the prefix and the shifted run agree;
  the \<^verbatim>\<open>while\<close> loop then leaves the largest candidate, or 0.
\<close>

lemma prefix_scan_le:
  "k \<le> offset \<Longrightarrow> prefix_scan t d offset k \<le> offset"
proof (induction t d offset k rule: prefix_scan.induct)
  case (1 t d offset k)
  show ?case
  proof (cases "k < offset \<and> nth_opt t k = nth_opt t (k + d)")
    case True
    then have "prefix_scan t d offset k = prefix_scan t d offset (k + 1)"
      by (subst prefix_scan.simps) simp
    with "1.IH" True show ?thesis by simp
  next
    case False
    then have "prefix_scan t d offset k = k"
      by (subst prefix_scan.simps) auto
    with "1.prems" show ?thesis by simp
  qed
qed

lemma prefix_scan_full:
  "k \<le> offset \<Longrightarrow>
   prefix_scan t d offset k = offset \<longleftrightarrow> (\<forall>i. k \<le> i \<and> i < offset \<longrightarrow> nth_opt t i = nth_opt t (i + d))"
proof (induction t d offset k rule: prefix_scan.induct)
  case (1 t d offset k)
  show ?case
  proof (cases "k < offset")
    case False
    then have "prefix_scan t d offset k = k"
      by (subst prefix_scan.simps) simp
    with False "1.prems" show ?thesis by auto
  next
    case True
    note k = True
    show ?thesis
    proof (cases "nth_opt t k \<noteq> nth_opt t (k + d)")
      case True
      with k have "prefix_scan t d offset k = k"
        by (simp add: prefix_scan.simps [of t d offset k])
      with k True show ?thesis by auto
    next
      case False
      with k have eq: "prefix_scan t d offset k = prefix_scan t d offset (k + 1)"
        by (simp add: prefix_scan.simps [of t d offset k])
      from k have "k + 1 \<le> offset" by simp
      from "1.IH" [OF k False this]
      have IH: "prefix_scan t d offset (k + 1) = offset \<longleftrightarrow>
          (\<forall>i. k + 1 \<le> i \<and> i < offset \<longrightarrow> nth_opt t i = nth_opt t (i + d))" .
      have "(\<forall>i. k \<le> i \<and> i < offset \<longrightarrow> nth_opt t i = nth_opt t (i + d)) \<longleftrightarrow>
            (\<forall>i. k + 1 \<le> i \<and> i < offset \<longrightarrow> nth_opt t i = nth_opt t (i + d))"
      proof (intro iffI allI impI)
        fix i assume a: "\<forall>i. k \<le> i \<and> i < offset \<longrightarrow> nth_opt t i = nth_opt t (i + d)" "k + 1 \<le> i \<and> i < offset"
        then show "nth_opt t i = nth_opt t (i + d)" by simp
      next
        fix i assume a: "\<forall>i. k + 1 \<le> i \<and> i < offset \<longrightarrow> nth_opt t i = nth_opt t (i + d)" "k \<le> i \<and> i < offset"
        show "nth_opt t i = nth_opt t (i + d)"
        proof (cases "i = k")
          case True with False show ?thesis by simp
        next
          case False with a show ?thesis by simp
        qed
      qed
      with eq IH show ?thesis by simp
    qed
  qed
qed

lemma shifted_prefix_iff:
  assumes "o1 + d \<le> length t"
  shows "(\<forall>i. i < o1 \<longrightarrow> nth_opt t i = nth_opt t (i + d)) \<longleftrightarrow> take o1 t = drop d (take (o1 + d) t)"
proof -
  have len: "length (take o1 t) = o1" "length (drop d (take (o1 + d) t)) = o1"
    using assms by simp_all
  have "take o1 t = drop d (take (o1 + d) t) \<longleftrightarrow> (\<forall>i < o1. take o1 t ! i = drop d (take (o1 + d) t) ! i)"
    using len by (simp add: list_eq_iff_nth_eq)
  also have "\<dots> \<longleftrightarrow> (\<forall>i < o1. t ! i = t ! (i + d))"
    using assms by (simp add: add.commute)
  also have "\<dots> \<longleftrightarrow> (\<forall>i. i < o1 \<longrightarrow> nth_opt t i = nth_opt t (i + d))"
    using assms by (auto simp: nth_opt_def)
  finally show ?thesis by simp
qed

lemma backtrack_spec:
  "original \<le> length t \<Longrightarrow> offset \<le> original \<Longrightarrow>
   backtrack t b original offset \<le> offset \<and>
   (backtrack t b original offset = 0 \<or> recovery_candidate t original b (backtrack t b original offset)) \<and>
   (\<forall>o'. recovery_candidate t original b o' \<and> o' \<le> offset \<longrightarrow> o' \<le> backtrack t b original offset)"
proof (induction t b original offset rule: backtrack.induct)
  case (1 t b original offset)
  show ?case
  proof (cases "offset > 0")
    case False
    then have "backtrack t b original offset = 0"
      by (subst backtrack.simps) simp
    with False show ?thesis by (simp add: recovery_candidate_def)
  next
    case True
    note pos = True
    define o1 where "o1 = offset - 1"
    have o1: "o1 < original" "o1 < length t" "offset = o1 + 1"
      using pos "1.prems" by (simp_all add: o1_def)
    have cand_top: "recovery_candidate t original b offset \<longleftrightarrow>
        Some b = nth_opt t o1 \<and> (o1 = 0 \<or> prefix_scan t (original - o1) o1 0 = o1)"
    proof -
      have "prefix_scan t (original - o1) o1 0 = o1 \<longleftrightarrow> take o1 t = drop (original - o1) (take original t)"
        using prefix_scan_full [of 0 o1 t "original - o1"]
          shifted_prefix_iff [of o1 "original - o1" t] o1 "1.prems" by simp
      moreover have "o1 = 0 \<Longrightarrow> take o1 t = drop (original - o1) (take original t)"
        by simp
      ultimately show ?thesis
        using o1 "1.prems" by (auto simp: recovery_candidate_def nth_opt_def)
    qed
    have unfolded: "backtrack t b original offset =
        (if Some b \<noteq> nth_opt t o1 then backtrack t b original o1
         else if o1 = 0 then o1 + 1
         else if prefix_scan t (original - o1) o1 0 = o1 then o1 + 1
         else backtrack t b original o1)"
      using pos by (subst backtrack.simps) (simp add: Let_def o1_def)
    show ?thesis
    proof (cases "recovery_candidate t original b offset")
      case True
      then have "backtrack t b original offset = offset"
        unfolding unfolded using cand_top o1 by auto
      with True show ?thesis by simp
    next
      case False
      then have eq: "backtrack t b original offset = backtrack t b original o1"
        unfolding unfolded using cand_top by auto
      have IH: "backtrack t b original o1 \<le> o1 \<and>
         (backtrack t b original o1 = 0 \<or> recovery_candidate t original b (backtrack t b original o1)) \<and>
         (\<forall>o'. recovery_candidate t original b o' \<and> o' \<le> o1 \<longrightarrow> o' \<le> backtrack t b original o1)"
      proof (cases "Some b \<noteq> nth_opt t o1")
        case True
        show ?thesis
          using "1.IH"(1) [OF pos o1_def True "1.prems"(1)] o1 by simp
      next
        case False
        note m = False
        with \<open>\<not> recovery_candidate t original b offset\<close> cand_top
        have nz: "o1 \<noteq> 0" and ps: "prefix_scan t (original - o1) o1 0 \<noteq> o1" by auto
        show ?thesis
          using "1.IH"(2) [OF pos o1_def m nz refl refl ps "1.prems"(1)] o1 by simp
      qed
      show ?thesis
        unfolding eq
      proof (intro conjI allI impI)
        show "backtrack t b original o1 \<le> offset" using IH o1 by simp
        show "backtrack t b original o1 = 0 \<or> recovery_candidate t original b (backtrack t b original o1)"
          using IH by simp
      next
        fix o' assume a: "recovery_candidate t original b o' \<and> o' \<le> offset"
        with False have "o' \<noteq> offset" by auto
        with a o1 have "o' \<le> o1" by simp
        with a IH show "o' \<le> backtrack t b original o1" by simp
      qed
    qed
  qed
qed

text \<open>
  Claim C1, amended. In \<^verbatim>\<open>singleFindUtil\<close>, a byte \<open>b\<close> that does not match the pattern at
  the offset moves the offset to the largest \<open>offset'\<close>, at most the old offset, such that
  \<open>pattern[offset' - 1] = b\<close> and the prefix of length \<open>offset' - 1\<close> ends the matched run
  \<open>pattern[0 .. offset)\<close>, or to 0 when there is no such \<open>offset'\<close>; the following bytes are
  processed from that offset. (For \<^verbatim>\<open>multiFindUtil\<close> see claim C10.)
\<close>
theorem single_mismatch_recovery:
  assumes "offset < length pattern" and "pattern ! offset \<noteq> b"
  shows "\<exists>r. single_byte pattern offset b = Carry r \<and>
             single_data pattern offset (b # data) = single_data pattern r data \<and>
             (if \<exists>o'. recovery_candidate pattern offset b o'
              then recovery_candidate pattern offset b r \<and>
                   (\<forall>o'. recovery_candidate pattern offset b o' \<longrightarrow> o' \<le> r)
              else r = 0)"
proof -
  define r where "r = backtrack pattern b offset offset"
  have sb: "single_byte pattern offset b = Carry r"
    using assms by (simp add: single_byte_def nth_opt_def r_def)
  have spec: "r = 0 \<or> recovery_candidate pattern offset b r"
    "\<And>o'. recovery_candidate pattern offset b o' \<Longrightarrow> o' \<le> r"
    using backtrack_spec [of offset pattern offset b] assms(1)
    by (auto simp: r_def recovery_candidate_def)
  have "\<not> recovery_candidate pattern offset b 0"
    by (simp add: recovery_candidate_def)
  with spec have "if \<exists>o'. recovery_candidate pattern offset b o'
              then recovery_candidate pattern offset b r \<and>
                   (\<forall>o'. recovery_candidate pattern offset b o' \<longrightarrow> o' \<le> r)
              else r = 0"
    by (metis le_zero_eq)
  with sb show ?thesis by simp
qed

text \<open>
  Pattern \<^verbatim>\<open>"AAB"\<close> at offset 2 and the byte \<^verbatim>\<open>"A"\<close>.
\<close>
theorem single_mismatch_recovery_witness:
  "2 < length ''AAB'' \<and> ''AAB'' ! 2 \<noteq> CHR ''A'' \<and>
   (\<exists>r. single_byte ''AAB'' 2 (CHR ''A'') = Carry r \<and>
        single_data ''AAB'' 2 (CHR ''A'' # ''B'') = single_data ''AAB'' r ''B'' \<and>
        (if \<exists>o'. recovery_candidate ''AAB'' 2 (CHR ''A'') o'
         then recovery_candidate ''AAB'' 2 (CHR ''A'') r \<and>
              (\<forall>o'. recovery_candidate ''AAB'' 2 (CHR ''A'') o' \<longrightarrow> o' \<le> r)
         else r = 0))"
  using single_mismatch_recovery [of 2 "''AAB''" "CHR ''A''" "''B''"] by simp

text \<open>
  Claim C1 as stated fails. With pattern \<^verbatim>\<open>"AAB"\<close>, offset 2 and byte \<^verbatim>\<open>"A"\<close> the new offset of
  \<^verbatim>\<open>singleFindUtil\<close> is 2, not below the old one. With pattern \<^verbatim>\<open>"ABC"\<close>, offset 2 and byte
  \<^verbatim>\<open>"A"\<close> it is 1, although the prefix \<^verbatim>\<open>"A"\<close> does not end the matched run \<^verbatim>\<open>"AB"\<close>. In
  \<^verbatim>\<open>multiFindUtil\<close> the stored offset 2 of \<^verbatim>\<open>"ABAB"\<close> stays 2 on the byte \<^verbatim>\<open>"C"\<close>. In each case
  the new offset is positive and not one of the offsets the claim allows.
\<close>
theorem claimed_recovery_counterexample:
  "single_byte ''AAB'' 2 (CHR ''A'') = Carry 2 \<and>
   \<not> claimed_candidate ''AAB'' 2 (CHR ''A'') 2 \<and>
   single_byte ''ABC'' 2 (CHR ''A'') = Carry 1 \<and>
   \<not> claimed_candidate ''ABC'' 2 (CHR ''A'') 1 \<and>
   multi_targets [''ABAB''] (CHR ''C'') [2] 0 = Carry [2] \<and>
   \<not> claimed_candidate ''ABAB'' 2 (CHR ''C'') 2"
  by code_simp

section \<open>The single-target matcher tracks the longest border\<close>

text \<open>
  As long as \<^verbatim>\<open>singleFindUtil\<close> has not returned, its offset is the length of the longest
  prefix of the target that ends the bytes processed so far. Hence the byte that ends an
  occurrence of the target makes it return.
\<close>

lemma border_0: "border p ys 0"
  by (simp add: border_def)

lemma border_snoc:
  "border p (ys @ [b]) (Suc k) \<longleftrightarrow> k < length p \<and> p ! k = b \<and> border p ys k"
  by (auto simp: border_def take_Suc_conv_app_nth)

lemma suffix_is_drop: "suffix a c \<Longrightarrow> a = drop (length c - length a) c"
  by (auto simp: suffix_def)

lemma border_shorter:
  assumes "border p ys k" "border p ys s" "k \<le> s"
  shows "take k p = drop (s - k) (take s p)"
proof -
  from assms have "suffix (take k p) (take s p)"
    by (auto simp: border_def intro: suffix_length_suffix)
  from suffix_is_drop [OF this]
  have "take k p = drop (length (take s p) - length (take k p)) (take s p)" .
  moreover have "length (take s p) = s" "length (take k p) = k"
    using assms by (simp_all add: border_def)
  ultimately show ?thesis by simp
qed

lemma border_from_shorter:
  assumes "border p ys s" "k \<le> s" "take k p = drop (s - k) (take s p)"
  shows "border p ys k"
proof -
  have "suffix (take k p) (take s p)"
    using assms(3) suffix_drop [of "s - k" "take s p"] by simp
  with assms show ?thesis
    by (auto simp: border_def intro: suffix_order.trans)
qed

lemma candidate_iff_border:
  assumes "border p ys s" "k \<le> s" "s \<le> length p"
  shows "recovery_candidate p s b k \<longleftrightarrow> 0 < k \<and> border p (ys @ [b]) k"
proof (cases k)
  case 0
  then show ?thesis by (simp add: recovery_candidate_def)
next
  case (Suc k0)
  have "k0 < length p" using Suc assms by simp
  moreover have "border p ys k0 \<longleftrightarrow> take k0 p = drop (s - k0) (take s p)"
    using border_shorter [of p ys k0 s] border_from_shorter [of p ys s k0] assms Suc by auto
  ultimately show ?thesis
    using Suc assms by (auto simp: recovery_candidate_def border_snoc)
qed

lemma single_byte_Carry:
  assumes "longest_border p ys s" "s < length p" "single_byte p s b = Carry s1"
  shows "longest_border p (ys @ [b]) s1 \<and> s1 < length p"
proof -
  from assms(1) have bs: "border p ys s" and mx: "\<And>k. border p ys k \<Longrightarrow> k \<le> s"
    by (auto simp: longest_border_def)
  have top: "k \<le> s + 1" if "border p (ys @ [b]) k" for k
  proof (cases k)
    case 0 then show ?thesis by simp
  next
    case (Suc k0)
    with that have "border p ys k0" by (simp add: border_snoc)
    from mx [OF this] Suc show ?thesis by simp
  qed
  show ?thesis
  proof (cases "p ! s = b")
    case True
    with assms(2,3) have s1: "s1 = s + 1" "s + 1 \<noteq> length p"
      by (auto simp: single_byte_def nth_opt_def Let_def split: if_splits)
    have "border p (ys @ [b]) (Suc s)"
      using True assms(2) bs by (simp add: border_snoc)
    with top s1 assms(2) show ?thesis
      by (auto simp: longest_border_def)
  next
    case False
    with assms(2,3) have s1: "s1 = backtrack p b s s"
      by (auto simp: single_byte_def nth_opt_def)
    from backtrack_spec [of s p s b] assms(2)
    have le: "s1 \<le> s" and c: "s1 = 0 \<or> recovery_candidate p s b s1"
      and mx1: "\<And>o'. recovery_candidate p s b o' \<Longrightarrow> o' \<le> s \<Longrightarrow> o' \<le> s1"
      by (auto simp: s1)
    have b1: "border p (ys @ [b]) s1"
      using c candidate_iff_border [OF bs le, of b] assms(2) by (auto simp: border_0)
    have "k \<le> s1" if k: "border p (ys @ [b]) k" for k
    proof (cases k)
      case 0 then show ?thesis by simp
    next
      case (Suc k0)
      with k have k0: "p ! k0 = b" "border p ys k0" by (simp_all add: border_snoc)
      from mx [OF k0(2)] k0(1) False have "k0 < s" by (cases "k0 = s") auto
      then have "k \<le> s" using Suc by simp
      with candidate_iff_border [OF bs this, of b] k Suc assms(2)
      have "recovery_candidate p s b k" by simp
      from mx1 [OF this \<open>k \<le> s\<close>] show ?thesis .
    qed
    with b1 le assms(2) show ?thesis
      by (auto simp: longest_border_def)
  qed
qed

lemma single_byte_Return:
  assumes "longest_border p ys s" "s < length p" "single_byte p s b = Return r"
  shows "r \<and> suffix p (ys @ [b])"
proof -
  from assms(2,3) have m: "p ! s = b" "s + 1 = length p" "r"
    by (auto simp: single_byte_def nth_opt_def Let_def split: if_splits)
  from assms(1) have "border p ys s" by (simp add: longest_border_def)
  with m(1) assms(2) have "border p (ys @ [b]) (Suc s)" by (simp add: border_snoc)
  with m show ?thesis by (simp add: border_def)
qed

lemma single_byte_completes:
  assumes "longest_border p ys s" "s < length p" "suffix p (ys @ [b])"
  shows "single_byte p s b = Return True"
proof (cases "single_byte p s b")
  case (Return r)
  with single_byte_Return [OF assms(1,2) Return] show ?thesis by simp
next
  case (Carry s1)
  from single_byte_Carry [OF assms(1,2) Carry]
  have "longest_border p (ys @ [b]) s1" "s1 < length p" by simp_all
  moreover have "border p (ys @ [b]) (length p)"
    using assms(3) by (simp add: border_def)
  ultimately show ?thesis by (auto simp: longest_border_def)
qed

lemma single_data_append:
  "single_data p s (xs @ ys) =
     (case single_data p s xs of Return r \<Rightarrow> Return r | Carry s1 \<Rightarrow> single_data p s1 ys)"
  by (induction xs arbitrary: s) (simp_all split: scan.splits)

lemma single_data_Carry:
  "longest_border p ys s \<Longrightarrow> s < length p \<Longrightarrow> single_data p s xs = Carry s1 \<Longrightarrow>
   longest_border p (ys @ xs) s1 \<and> s1 < length p"
proof (induction xs arbitrary: ys s)
  case Nil
  then show ?case by simp
next
  case (Cons x xs)
  from Cons.prems(3) obtain s2 where s2: "single_byte p s x = Carry s2" "single_data p s2 xs = Carry s1"
    by (auto split: scan.splits)
  from single_byte_Carry [OF Cons.prems(1,2) s2(1)]
  have "longest_border p (ys @ [x]) s2" "s2 < length p" by simp_all
  from Cons.IH [OF this s2(2)] show ?case by simp
qed

lemma single_data_Return:
  "single_data p s xs = Return r \<Longrightarrow> s < length p \<Longrightarrow> longest_border p ys s \<Longrightarrow> r"
proof (induction xs arbitrary: ys s)
  case Nil
  then show ?case by simp
next
  case (Cons x xs)
  show ?case
  proof (cases "single_byte p s x")
    case (Return r')
    with Cons.prems(1) have "r' = r" by simp
    with single_byte_Return [OF Cons.prems(3,2) Return] show ?thesis by simp
  next
    case (Carry s2)
    with Cons.prems(1) have d: "single_data p s2 xs = Return r" by simp
    from single_byte_Carry [OF Cons.prems(3,2) Carry]
    have "longest_border p (ys @ [x]) s2" "s2 < length p" by simp_all
    from Cons.IH [OF d this(2,1)] show ?thesis .
  qed
qed

lemma longest_border_start: "longest_border p [] 0"
  by (auto simp: longest_border_def border_def)

lemma single_data_finds:
  assumes "p \<noteq> []"
  shows "single_data p 0 (pre @ p @ post) = Return True"
proof -
  have l0: "0 < length p" using assms by simp
  obtain q c where p: "p = q @ [c]"
    using assms by (cases p rule: rev_cases) auto
  have "single_data p 0 (pre @ q @ [c]) = Return True"
  proof (cases "single_data p 0 (pre @ q)")
    case (Return r)
    from single_data_Return [OF Return l0 longest_border_start] Return
    show ?thesis
      using single_data_append [of p 0 "pre @ q" "[c]"] by simp
  next
    case (Carry s)
    from single_data_Carry [OF longest_border_start l0 Carry]
    have inv: "longest_border p (pre @ q) s" "s < length p" by simp_all
    have "suffix p ((pre @ q) @ [c])" by (simp add: p suffix_def)
    from single_byte_completes [OF inv this]
    show ?thesis
      using single_data_append [of p 0 "pre @ q" "[c]"] Carry by simp
  qed
  then have "single_data p 0 (pre @ p) = Return True" by (simp add: p)
  then show ?thesis
    using single_data_append [of p 0 "pre @ p" post] by simp
qed

section \<open>The multi-target matcher does not miss an occurrence\<close>

text \<open>
  A stored offset may be larger than the longest border, since a mismatch leaves it as it
  is. While the bytes of the target go by, the stored offset stays at or ahead of the
  position in the target and below its length, so it reaches the length at the last byte
  at the latest.
\<close>

lemma multi_data_Return_bound:
  "multi_data ts offs xs = Return j \<Longrightarrow> length offs = length ts \<Longrightarrow> j < length ts"
proof (induction xs arbitrary: offs)
  case Nil
  then show ?case by simp
next
  case (Cons x xs)
  show ?case
  proof (cases "multi_targets ts x offs 0")
    case (Return j')
    with Cons.prems multi_targets_Return [OF Return] show ?thesis by simp
  next
    case (Carry offs1)
    with Cons.prems multi_targets_Carry [OF Carry] Cons.IH [of offs1] show ?thesis by simp
  qed
qed

lemma multi_targets_below:
  assumes "multi_targets ts b offs 0 = Carry offs1" "length offs = length ts"
    "i < length ts" "offs ! i < length (ts ! i)"
  shows "offs1 ! i < length (ts ! i) \<and> offs ! i \<le> offs1 ! i \<and>
         (Some b = nth_opt (ts ! i) (offs ! i) \<longrightarrow> offs1 ! i = offs ! i + 1)"
proof -
  from multi_targets_Carry [OF assms(1,2)] assms(3)
  have "offs1 ! i = stored_step (ts ! i) (offs ! i) b" "\<not> completes (ts ! i) (offs ! i) b"
    by simp_all
  with assms(4) show ?thesis
    by (auto simp: stored_step_def completes_def)
qed

lemma multi_data_below:
  "multi_data ts offs xs = Carry offs1 \<Longrightarrow> length offs = length ts \<Longrightarrow> i < length ts \<Longrightarrow>
   offs ! i < length (ts ! i) \<Longrightarrow> offs1 ! i < length (ts ! i)"
proof (induction xs arbitrary: offs)
  case Nil
  then show ?case by simp
next
  case (Cons x xs)
  from Cons.prems(1) obtain offs2 where s: "multi_targets ts x offs 0 = Carry offs2"
      "multi_data ts offs2 xs = Carry offs1"
    by (auto split: scan.splits)
  from multi_targets_Carry [OF s(1) Cons.prems(2)] have l: "length offs2 = length ts" by simp
  from multi_targets_below [OF s(1) Cons.prems(2,3,4)] have "offs2 ! i < length (ts ! i)" by simp
  from Cons.IH [OF s(2) l Cons.prems(3) this] show ?case .
qed

lemma multi_data_lockstep:
  assumes "i < length ts"
  shows "length offs = length ts \<Longrightarrow> m \<le> offs ! i \<Longrightarrow> offs ! i < length (ts ! i) \<Longrightarrow>
     m < length (ts ! i) \<Longrightarrow> n = length (ts ! i) - m \<Longrightarrow>
     \<exists>j < length ts. multi_data ts offs (drop m (ts ! i) @ post) = Return j"
proof (induction n arbitrary: m offs)
  case 0
  then show ?case by simp
next
  case (Suc n)
  let ?p = "ts ! i"
  have d: "drop m ?p = ?p ! m # drop (Suc m) ?p"
    using Suc.prems(4) by (simp add: Cons_nth_drop_Suc)
  show ?case
  proof (cases "multi_targets ts (?p ! m) offs 0")
    case (Return j)
    from multi_targets_Return [OF Return Suc.prems(1)] have "j < length ts" by simp
    with Return d show ?thesis by auto
  next
    case (Carry offs1)
    from multi_targets_Carry [OF Carry Suc.prems(1)] have l: "length offs1 = length ts" by simp
    from multi_targets_below [OF Carry Suc.prems(1) assms Suc.prems(3)]
    have b: "offs1 ! i < length ?p" "offs ! i \<le> offs1 ! i"
      "Some (?p ! m) = nth_opt ?p (offs ! i) \<longrightarrow> offs1 ! i = offs ! i + 1" by simp_all
    have ge: "Suc m \<le> offs1 ! i"
    proof (cases "offs ! i = m")
      case True
      with Suc.prems(4) b(3) show ?thesis by (simp add: nth_opt_def)
    next
      case False
      with Suc.prems(2) b(2) show ?thesis by simp
    qed
    with b(1) have lt: "Suc m < length ?p" by simp
    have n: "n = length ?p - Suc m" using Suc.prems(5) by simp
    from Suc.IH [OF l ge b(1) lt n] obtain j where "j < length ts"
      "multi_data ts offs1 (drop (Suc m) ?p @ post) = Return j" by blast
    with Carry d show ?thesis by auto
  qed
qed

lemma multi_data_finds:
  assumes "p \<in> set ts" "p \<noteq> []"
  shows "\<exists>j < length ts. multi_data ts (replicate (length ts) 0) (pre @ p @ post) = Return j"
proof -
  from assms(1) obtain i where i: "i < length ts" "ts ! i = p"
    by (auto simp: in_set_conv_nth)
  let ?o = "replicate (length ts) (0::nat)"
  have l: "length ?o = length ts" by simp
  have z: "?o ! i < length (ts ! i)" using i assms(2) by simp
  show ?thesis
  proof (cases "multi_data ts ?o pre")
    case (Return j)
    from multi_data_Return_bound [OF Return l] Return show ?thesis
      by (auto simp: multi_data_append)
  next
    case (Carry offs1)
    from multi_data_length [OF Carry l] have l1: "length offs1 = length ts" .
    from multi_data_below [OF Carry l i(1) z] have b: "offs1 ! i < length (ts ! i)" .
    have "0 < length (ts ! i)" using i assms(2) by simp
    from multi_data_lockstep [where m = 0 and post = post, OF i(1) l1 _ b this refl]
    obtain j where "j < length ts" "multi_data ts offs1 (p @ post) = Return j"
      using i by auto
    with Carry show ?thesis by (auto simp: multi_data_append)
  qed
qed

section \<open>The polling loops\<close>

text \<open>
  When the bytes handed over by the first \<open>k\<close> reads make the scan return, and the clock
  is below the deadline at the \<open>k - 1\<close> tests before the last of them, the loop returns that
  value at the first read whose bytes complete the scan.
\<close>

lemma readBuffer0_Cons:
  "avail w = a # as \<Longrightarrow>
   readBuffer 0 w = Some (take a (stream w), w\<lparr>stream := drop a (stream w), avail := as\<rparr>)"
  by (simp add: readBuffer_def)

lemma runningTime_Cons:
  "clock w = t # ts \<Longrightarrow> runningTime w = Some (t, w\<lparr>clock := ts\<rparr>)"
  by (simp add: runningTime_def)

lemma delivered_0: "delivered w 0 = []"
  by (simp add: delivered_def)

lemma delivered_Suc:
  "avail w = a # as \<Longrightarrow>
   delivered w (Suc k) = take a (stream w) @ delivered (w\<lparr>stream := drop a (stream w), avail := as, clock := c\<rparr>) k"
  by (simp add: delivered_def take_add)

lemma consume_step:
  "avail w = a # as \<Longrightarrow> clock w = t # ts \<Longrightarrow>
   consume (Suc m) m (w\<lparr>stream := drop a (stream w), avail := as, clock := ts\<rparr>) = consume (Suc (Suc m)) (Suc m) w"
  by (simp add: consume_def add.commute)

lemma consume_first:
  "avail w = a # as \<Longrightarrow> w\<lparr>stream := drop a (stream w), avail := as\<rparr> = consume (Suc 0) 0 w"
  by (simp add: consume_def)

lemma multiFind_loop_returns:
  "1 \<le> k \<Longrightarrow> k \<le> length (avail w) \<Longrightarrow> k - 1 \<le> length (clock w) \<Longrightarrow>
   \<forall>t \<in> set (take (k - 1) (clock w)). t < end_time \<Longrightarrow>
   multi_data ts offs (delivered w k) = Return j \<Longrightarrow>
   \<exists>m < k. multiFind_loop ts end_time offs w = Some (int j, consume (Suc m) m w) \<and>
           multi_data ts offs (delivered w (Suc m)) = Return j"
proof (induction k arbitrary: w offs)
  case 0
  then show ?case by simp
next
  case (Suc k)
  from Suc.prems(2) obtain a as where av: "avail w = a # as"
    by (cases "avail w") auto
  define w1 where "w1 = w\<lparr>stream := drop a (stream w), avail := as\<rparr>"
  have rd: "readBuffer 0 w = Some (take a (stream w), w1)"
    using readBuffer0_Cons [OF av] by (simp add: w1_def)
  show ?case
  proof (cases "multi_data ts offs (take a (stream w))")
    case (Return j')
    have d1: "delivered w (Suc 0) = take a (stream w)"
      using av by (simp add: delivered_def)
    from Suc.prems(5) Return have "j' = j"
      by (simp add: delivered_Suc [OF av, of k "clock w"] multi_data_append)
    with Return rd have "multiFind_loop ts end_time offs w = Some (int j, consume (Suc 0) 0 w)"
      by (subst multiFind_loop.simps) (simp add: w1_def consume_first [OF av])
    with Return d1 \<open>j' = j\<close> show ?thesis by auto
  next
    case (Carry offs1)
    have k: "1 \<le> k"
    proof (rule ccontr)
      assume "\<not> 1 \<le> k"
      then have "k = 0" by simp
      with Suc.prems(5) Carry show False
        by (simp add: delivered_Suc [OF av, of 0 "clock w"] multi_data_append delivered_0)
    qed
    with Suc.prems(3) obtain t tl where ck: "clock w = t # tl"
      by (cases "clock w") auto
    define w2 where "w2 = w\<lparr>stream := drop a (stream w), avail := as, clock := tl\<rparr>"
    have rt: "runningTime w1 = Some (t, w2)"
      using ck by (simp add: runningTime_def w1_def w2_def)
    have t: "t < end_time"
      using Suc.prems(4) ck k by (cases k) auto
    have step: "multiFind_loop ts end_time offs w = multiFind_loop ts end_time offs1 w2"
      using rd Carry rt t by (subst multiFind_loop.simps) simp
    have dl: "delivered w (Suc n) = take a (stream w) @ delivered w2 n" for n
      using delivered_Suc [OF av, of n tl] by (simp add: w2_def)
    have p1: "k \<le> length (avail w2)" using Suc.prems(2) av by (simp add: w2_def)
    have p2: "k - 1 \<le> length (clock w2)" using Suc.prems(3) ck by (simp add: w2_def)
    have p3: "\<forall>t \<in> set (take (k - 1) (clock w2)). t < end_time"
    proof
      fix u assume "u \<in> set (take (k - 1) (clock w2))"
      then have "u \<in> set (take (Suc k - 1) (clock w))"
        using ck k by (cases k) (auto simp: w2_def)
      with Suc.prems(4) show "u < end_time" by blast
    qed
    have p4: "multi_data ts offs1 (delivered w2 k) = Return j"
      using Suc.prems(5) Carry by (simp add: dl multi_data_append)
    from Suc.IH [OF k p1 p2 p3 p4] obtain m where m: "m < k"
      "multiFind_loop ts end_time offs1 w2 = Some (int j, consume (Suc m) m w2)"
      "multi_data ts offs1 (delivered w2 (Suc m)) = Return j" by blast
    have "consume (Suc m) m w2 = consume (Suc (Suc m)) (Suc m) w"
      using consume_step [OF av ck] by (simp add: w2_def)
    with m step Carry have "multiFind_loop ts end_time offs w = Some (int j, consume (Suc (Suc m)) (Suc m) w)"
      "multi_data ts offs (delivered w (Suc (Suc m))) = Return j"
      by (simp_all add: dl multi_data_append)
    with m(1) show ?thesis by (intro exI [of _ "Suc m"]) simp
  qed
qed

lemma singleFind_loop_returns:
  "1 \<le> k \<Longrightarrow> k \<le> length (avail w) \<Longrightarrow> k - 1 \<le> length (clock w) \<Longrightarrow>
   \<forall>t \<in> set (take (k - 1) (clock w)). t < end_time \<Longrightarrow>
   single_data p s (delivered w k) = Return r \<Longrightarrow>
   \<exists>m < k. singleFind_loop p end_time s w = Some (r, consume (Suc m) m w) \<and>
           single_data p s (delivered w (Suc m)) = Return r"
proof (induction k arbitrary: w s)
  case 0
  then show ?case by simp
next
  case (Suc k)
  from Suc.prems(2) obtain a as where av: "avail w = a # as"
    by (cases "avail w") auto
  define w1 where "w1 = w\<lparr>stream := drop a (stream w), avail := as\<rparr>"
  have rd: "readBuffer 0 w = Some (take a (stream w), w1)"
    using readBuffer0_Cons [OF av] by (simp add: w1_def)
  show ?case
  proof (cases "single_data p s (take a (stream w))")
    case (Return r')
    have d1: "delivered w (Suc 0) = take a (stream w)"
      using av by (simp add: delivered_def)
    from Suc.prems(5) Return have "r' = r"
      by (simp add: delivered_Suc [OF av, of k "clock w"] single_data_append)
    with Return rd have "singleFind_loop p end_time s w = Some (r, consume (Suc 0) 0 w)"
      by (subst singleFind_loop.simps) (simp add: w1_def consume_first [OF av])
    with Return d1 \<open>r' = r\<close> show ?thesis by auto
  next
    case (Carry s1)
    have k: "1 \<le> k"
    proof (rule ccontr)
      assume "\<not> 1 \<le> k"
      then have "k = 0" by simp
      with Suc.prems(5) Carry show False
        by (simp add: delivered_Suc [OF av, of 0 "clock w"] single_data_append delivered_0)
    qed
    with Suc.prems(3) obtain t tl where ck: "clock w = t # tl"
      by (cases "clock w") auto
    define w2 where "w2 = w\<lparr>stream := drop a (stream w), avail := as, clock := tl\<rparr>"
    have rt: "runningTime w1 = Some (t, w2)"
      using ck by (simp add: runningTime_def w1_def w2_def)
    have t: "t < end_time"
      using Suc.prems(4) ck k by (cases k) auto
    have step: "singleFind_loop p end_time s w = singleFind_loop p end_time s1 w2"
      using rd Carry rt t by (subst singleFind_loop.simps) simp
    have dl: "delivered w (Suc n) = take a (stream w) @ delivered w2 n" for n
      using delivered_Suc [OF av, of n tl] by (simp add: w2_def)
    have p1: "k \<le> length (avail w2)" using Suc.prems(2) av by (simp add: w2_def)
    have p2: "k - 1 \<le> length (clock w2)" using Suc.prems(3) ck by (simp add: w2_def)
    have p3: "\<forall>t \<in> set (take (k - 1) (clock w2)). t < end_time"
    proof
      fix u assume "u \<in> set (take (k - 1) (clock w2))"
      then have "u \<in> set (take (Suc k - 1) (clock w))"
        using ck k by (cases k) (auto simp: w2_def)
      with Suc.prems(4) show "u < end_time" by blast
    qed
    have p4: "single_data p s1 (delivered w2 k) = Return r"
      using Suc.prems(5) Carry by (simp add: dl single_data_append)
    from Suc.IH [OF k p1 p2 p3 p4] obtain m where m: "m < k"
      "singleFind_loop p end_time s1 w2 = Some (r, consume (Suc m) m w2)"
      "single_data p s1 (delivered w2 (Suc m)) = Return r" by blast
    have "consume (Suc m) m w2 = consume (Suc (Suc m)) (Suc m) w"
      using consume_step [OF av ck] by (simp add: w2_def)
    with m step Carry have "singleFind_loop p end_time s w = Some (r, consume (Suc (Suc m)) (Suc m) w)"
      "single_data p s (delivered w (Suc (Suc m))) = Return r"
      by (simp_all add: dl single_data_append)
    with m(1) show ?thesis by (intro exI [of _ "Suc m"]) simp
  qed
qed

lemma sum_list_take_mono:
  "i \<le> k \<Longrightarrow> sum_list (take i xs) \<le> sum_list (take k (xs :: nat list))"
proof -
  assume "i \<le> k"
  then have "take k xs = take i xs @ take (k - i) (drop i xs)"
    using take_add [of i "k - i" xs] by simp
  then show ?thesis by simp
qed

lemma delivered_clock: "delivered (w\<lparr>clock := c\<rparr>) k = delivered w k"
  by (simp add: delivered_def)

lemma consume_clock:
  "clock w = t0 # ts \<Longrightarrow> consume r m (w\<lparr>clock := ts\<rparr>) = consume r (Suc m) w"
  by (simp add: consume_def)

text \<open>
  Claim C6. Let \<open>P\<close> be a non-empty pattern and \<open>T\<close> a timeout, and let the bytes of \<open>P\<close> occur
  contiguously among the bytes handed over by the first \<open>k\<close> reads, where the clock is below
  the deadline at each of the \<open>k - 1\<close> tests before the last of these reads. Then
  \<^verbatim>\<open>multiFindUtil\<close>, with \<open>P\<close> among its targets, returns the index of a target, and
  \<^verbatim>\<open>singleFindUtil\<close> with target \<open>P\<close> returns \<^verbatim>\<open>true\<close>; both return within these \<open>k\<close> reads, so
  every clock value they have tested is below the deadline.
\<close>
theorem pattern_in_stream_is_found:
  assumes "P \<noteq> []" and "P \<in> set targets" and "0 \<le> T"
    and "clock w = t0 # ts"
    and "1 \<le> k" and "k \<le> length (avail w)" and "k - 1 \<le> length ts"
    and "\<forall>t \<in> set (take (k - 1) ts). t < t0 + T"
    and "delivered w k = pre @ P @ post"
  shows "\<exists>j m n. j < length targets \<and> m < k \<and> n < k \<and>
           multiFindUtil targets T w = Some (Inr (int j), consume (Suc m) (Suc m) w) \<and>
           singleFindUtil P T w = Some (Inr True, consume (Suc n) (Suc n) w)"
proof -
  define w0 where "w0 = w\<lparr>clock := ts\<rparr>"
  have rt: "runningTime w = Some (t0, w0)"
    using assms(4) by (simp add: runningTime_def w0_def)
  have d: "delivered w0 k = pre @ P @ post"
    using assms(9) by (simp add: w0_def delivered_clock)
  have e: "k \<le> length (avail w0)" "k - 1 \<le> length (clock w0)"
    "\<forall>t \<in> set (take (k - 1) (clock w0)). t < t0 + T"
    using assms(6,7,8) by (simp_all add: w0_def)
  have ne: "targets \<noteq> []" using assms(2) by auto
  from multi_data_finds [OF assms(2,1), of pre post] obtain j where j: "j < length targets"
    "multi_data targets (replicate (length targets) 0) (delivered w0 k) = Return j"
    using d by auto
  from multiFind_loop_returns [OF assms(5) e j(2)] obtain m where m: "m < k"
    "multiFind_loop targets (t0 + T) (replicate (length targets) 0) w0 = Some (int j, consume (Suc m) m w0)"
    by blast
  have M: "multiFindUtil targets T w = Some (Inr (int j), consume (Suc m) (Suc m) w)"
    using ne assms(3) rt m(2) consume_clock [OF assms(4)]
    by (simp add: multiFindUtil_def Let_def w0_def)
  have "single_data P 0 (delivered w0 k) = Return True"
    using single_data_finds [OF assms(1), of pre post] d by simp
  from singleFind_loop_returns [OF assms(5) e this] obtain n where n: "n < k"
    "singleFind_loop P (t0 + T) 0 w0 = Some (True, consume (Suc n) n w0)"
    by blast
  have S: "singleFindUtil P T w = Some (Inr True, consume (Suc n) (Suc n) w)"
    using assms(1,3) rt n(2) consume_clock [OF assms(4)]
    by (simp add: singleFindUtil_def w0_def)
  from j(1) m(1) n(1) M S show ?thesis by blast
qed

text \<open>
  Targets \<^verbatim>\<open>["OK", "ERROR"]\<close> and the bytes \<^verbatim>\<open>"xOKy"\<close> arriving over three reads.
\<close>
theorem pattern_in_stream_is_found_witness:
  "\<exists>j m n. j < length [''OK'', ''ERROR''] \<and> m < 3 \<and> n < 3 \<and>
     multiFindUtil [''OK'', ''ERROR''] 100 \<lparr>stream = ''xOKy'', avail = [1, 1, 2], clock = [0, 10, 20, 30]\<rparr>
       = Some (Inr (int j), consume (Suc m) (Suc m) \<lparr>stream = ''xOKy'', avail = [1, 1, 2], clock = [0, 10, 20, 30]\<rparr>) \<and>
     singleFindUtil ''OK'' 100 \<lparr>stream = ''xOKy'', avail = [1, 1, 2], clock = [0, 10, 20, 30]\<rparr>
       = Some (Inr True, consume (Suc n) (Suc n) \<lparr>stream = ''xOKy'', avail = [1, 1, 2], clock = [0, 10, 20, 30]\<rparr>)"
  using pattern_in_stream_is_found [where P = "''OK''" and targets = "[''OK'', ''ERROR'']" and T = 100
      and w = "\<lparr>stream = ''xOKy'', avail = [1, 1, 2], clock = [0, 10, 20, 30]\<rparr>"
      and ?t0.0 = 0 and ts = "[10, 20, 30]" and k = 3 and pre = "''x''" and post = "''y''"]
  by (simp add: delivered_def)

lemma GOK_prefixes:
  assumes "n \<le> 3" "multi_data [''OK'', ''ERROR''] [0, 0] (take n (''GOK'' @ later)) = Return j"
  shows "n = 3"
proof -
  have c: "multi_data [''OK'', ''ERROR''] [0, 0] [] = Carry [0, 0]"
    "multi_data [''OK'', ''ERROR''] [0, 0] ''G'' = Carry [0, 0]"
    "multi_data [''OK'', ''ERROR''] [0, 0] ''GO'' = Carry [1, 0]"
    by code_simp+
  from assms(1) consider "n = 0" | "n = 1" | "n = 2" | "n = 3" by linarith
  then show ?thesis
  proof cases
    case 1 with assms(2) c show ?thesis by simp
  next
    case 2 with assms(2) c show ?thesis by simp
  next
    case 3 with assms(2) c show ?thesis by (simp add: numeral_2_eq_2)
  next
    case 4 then show ?thesis .
  qed
qed

text \<open>
  Claim C4, amended. When \<^verbatim>\<open>multiFindUtil\<close> runs with targets \<^verbatim>\<open>["OK", "ERROR"]\<close> on a stream
  that starts with the bytes \<^verbatim>\<open>"G", "O", "K"\<close>, handed over in time by the first \<open>k\<close> reads in
  any grouping, it returns index 0 on the \<^verbatim>\<open>"K"\<close> of these three bytes, which hold a
  contiguous \<^verbatim>\<open>"OK"\<close>; the bytes that follow later stay unread.
\<close>
theorem first_contiguous_OK_is_reported:
  assumes "0 \<le> T" and "clock w = t0 # ts" and "stream w = ''GOK'' @ later"
    and "1 \<le> k" and "k \<le> length (avail w)" and "k - 1 \<le> length ts"
    and "\<forall>t \<in> set (take (k - 1) ts). t < t0 + T"
    and "sum_list (take k (avail w)) = 3"
  shows "\<exists>m < k. multiFindUtil [''OK'', ''ERROR''] T w = Some (Inr 0, consume (Suc m) (Suc m) w) \<and>
           stream (consume (Suc m) (Suc m) w) = later"
proof -
  define w0 where "w0 = w\<lparr>clock := ts\<rparr>"
  have rt: "runningTime w = Some (t0, w0)"
    using assms(2) by (simp add: runningTime_def w0_def)
  have g: "multi_data [''OK'', ''ERROR''] [0, 0] ''GOK'' = Return 0"
    by code_simp
  have d: "delivered w0 k = ''GOK''"
    using assms(3,8) by (simp add: w0_def delivered_def)
  have e: "k \<le> length (avail w0)" "k - 1 \<le> length (clock w0)"
    "\<forall>t \<in> set (take (k - 1) (clock w0)). t < t0 + T"
    using assms(5,6,7) by (simp_all add: w0_def)
  have r: "multi_data [''OK'', ''ERROR''] [0, 0] (delivered w0 k) = Return 0"
    using g d by simp
  from multiFind_loop_returns [OF assms(4) e r] obtain m where m: "m < k"
    "multiFind_loop [''OK'', ''ERROR''] (t0 + T) [0, 0] w0 = Some (int 0, consume (Suc m) m w0)"
    "multi_data [''OK'', ''ERROR''] [0, 0] (delivered w0 (Suc m)) = Return 0"
    by blast
  have M: "multiFindUtil [''OK'', ''ERROR''] T w = Some (Inr 0, consume (Suc m) (Suc m) w)"
    using assms(1) rt m(2) consume_clock [OF assms(2)]
    by (simp add: multiFindUtil_def Let_def w0_def)
  define n where "n = sum_list (take (Suc m) (avail w))"
  have "n \<le> 3"
    using sum_list_take_mono [of "Suc m" k "avail w"] m(1) assms(8) by (simp add: n_def)
  moreover have "multi_data [''OK'', ''ERROR''] [0, 0] (take n (''GOK'' @ later)) = Return 0"
    using m(3) assms(3) by (simp add: delivered_def w0_def n_def)
  ultimately have "n = 3" by (rule GOK_prefixes)
  then have "stream (consume (Suc m) (Suc m) w) = later"
    using assms(3) by (simp add: consume_def n_def)
  with M m(1) show ?thesis by blast
qed

text \<open>
  The bytes \<^verbatim>\<open>"G"\<close>, then \<^verbatim>\<open>"O", "K"\<close>, then the later \<^verbatim>\<open>"O", "K", "\r", "\n"\<close>.
\<close>
theorem first_contiguous_OK_is_reported_witness:
  "\<exists>m. m < 2 \<and> multiFindUtil [''OK'', ''ERROR''] 1000
        \<lparr>stream = ''GOK'' @ ''OK'' @ [CHR 0x0D, CHR 0x0A], avail = [1, 2, 4], clock = [0, 5, 500]\<rparr>
      = Some (Inr 0, consume (Suc m) (Suc m)
          \<lparr>stream = ''GOK'' @ ''OK'' @ [CHR 0x0D, CHR 0x0A], avail = [1, 2, 4], clock = [0, 5, 500]\<rparr>) \<and>
     stream (consume (Suc m) (Suc m)
          \<lparr>stream = ''GOK'' @ ''OK'' @ [CHR 0x0D, CHR 0x0A], avail = [1, 2, 4], clock = [0, 5, 500]\<rparr>)
      = ''OK'' @ [CHR 0x0D, CHR 0x0A]"
  using first_contiguous_OK_is_reported [where T = 1000 and ?t0.0 = 0 and ts = "[5, 500]" and k = 2
      and later = "''OK'' @ [CHR 0x0D, CHR 0x0A]"
      and w = "\<lparr>stream = ''GOK'' @ ''OK'' @ [CHR 0x0D, CHR 0x0A], avail = [1, 2, 4], clock = [0, 5, 500]\<rparr>"]
  by simp

text \<open>
  Claim C4 as stated fails: with \<^verbatim>\<open>"G", "O", "K"\<close> in the first read and
  \<^verbatim>\<open>"O", "K", "\r", "\n"\<close> in a later one, the call returns 0 after the first read; the second
  \<^verbatim>\<open>"OK"\<close> is still in the stream.
\<close>
theorem second_OK_counterexample:
  "multiFindUtil [''OK'', ''ERROR''] 1000
     \<lparr>stream = ''GOK'' @ ''OK'' @ [CHR 0x0D, CHR 0x0A], avail = [3, 4], clock = [0, 500, 600]\<rparr>
   = Some (Inr 0, \<lparr>stream = ''OK'' @ [CHR 0x0D, CHR 0x0A], avail = [4], clock = [500, 600]\<rparr>)"
  by code_simp

section \<open>The integer scanner\<close>

lemma readBuffer1_Cons:
  "avail w = a # as \<Longrightarrow>
   readBuffer 1 w = Some (take (min 1 a) (stream w), w\<lparr>stream := drop (min 1 a) (stream w), avail := as\<rparr>)"
  by (simp add: readBuffer_def Let_def)

lemma parse_loop_idle:
  assumes "avail w = 0 # as" "clock w = u # us"
  shows "parse_loop end_time acc w =
     (if u < end_time then parse_loop end_time acc (w\<lparr>avail := as, clock := us\<rparr>)
      else Some (NaN, w\<lparr>avail := as, clock := us\<rparr>))"
  using assms
  by (subst parse_loop.simps) (simp add: readBuffer_def runningTime_def pause_def)

lemma parse_loop_terminator:
  assumes "avail w = a # as" "0 < a" "stream w = t # rest" "\<not> accepted acc t"
  shows "parse_loop end_time acc w = Some (scan_result acc, w\<lparr>stream := rest, avail := as\<rparr>)"
  using assms
  by (subst parse_loop.simps) (simp add: readBuffer_def min_def scan_result_def)

lemma parse_loop_accept:
  assumes "avail w = a # as" "0 < a" "stream w = c # rest" "accepted acc c" "clock w = u # us"
  shows "parse_loop end_time acc w =
     (if u < end_time then parse_loop end_time (acc @ [c]) (w\<lparr>stream := rest, avail := as, clock := us\<rparr>)
      else Some (NaN, w\<lparr>stream := rest, avail := as, clock := us\<rparr>))"
  using assms
  by (subst parse_loop.simps) (simp add: readBuffer_def runningTime_def min_def)

lemma parse_loop_forward:
  "all_accepted acc ds \<Longrightarrow> \<not> accepted (acc @ ds) t \<Longrightarrow> stream w = ds @ t # rest \<Longrightarrow>
   k \<le> length (avail w) \<Longrightarrow> length ds < arrivals w k \<Longrightarrow>
   k - 1 \<le> length (clock w) \<Longrightarrow> \<forall>u \<in> set (take (k - 1) (clock w)). u < end_time \<Longrightarrow>
   \<exists>w'. parse_loop end_time acc w = Some (scan_result (acc @ ds), w') \<and> stream w' = rest"
proof (induction k arbitrary: acc ds w)
  case 0
  then show ?case by (simp add: arrivals_def)
next
  case (Suc k)
  from Suc.prems(4) obtain a as where av: "avail w = a # as"
    by (cases "avail w") auto
  have arr: "arrivals w (Suc k) = (if 0 < a then 1 else 0) + arrivals (w\<lparr>stream := s, avail := as, clock := c\<rparr>) k" for s c
    using av by (simp add: arrivals_def)
  show ?case
  proof (cases "0 < a \<and> ds = []")
    case True
    with Suc.prems(2,3) parse_loop_terminator [OF av, of t rest acc end_time]
    show ?thesis by simp
  next
    case False
    have k: "1 \<le> k"
    proof (rule ccontr)
      assume "\<not> 1 \<le> k"
      then have "k = 0" by simp
      with Suc.prems(5) False av show False by (auto simp: arrivals_def split: if_splits)
    qed
    with Suc.prems(6) obtain u us where ck: "clock w = u # us"
      by (cases "clock w") auto
    have u: "u < end_time"
      using Suc.prems(7) ck k by (cases k) auto
    have c7: "\<forall>v \<in> set (take (k - 1) us). v < end_time"
    proof
      fix v assume "v \<in> set (take (k - 1) us)"
      then have "v \<in> set (take (Suc k - 1) (clock w))"
        using ck k by (cases k) auto
      with Suc.prems(7) show "v < end_time" by blast
    qed
    show ?thesis
    proof (cases "0 < a")
      case False
      then have a0: "avail w = 0 # as" using av by simp
      define w2 where "w2 = w\<lparr>avail := as, clock := us\<rparr>"
      have step: "parse_loop end_time acc w = parse_loop end_time acc w2"
        using parse_loop_idle [OF a0 ck, of end_time acc] u by (simp add: w2_def)
      have "arrivals w (Suc k) = arrivals w2 k"
        using a0 by (simp add: arrivals_def w2_def)
      with Suc.prems have p: "stream w2 = ds @ t # rest" "k \<le> length (avail w2)" "length ds < arrivals w2 k"
        "k - 1 \<le> length (clock w2)" "\<forall>u \<in> set (take (k - 1) (clock w2)). u < end_time"
        using a0 ck c7 by (simp_all add: w2_def)
      from Suc.IH [OF Suc.prems(1,2) p] step show ?thesis by simp
    next
      case True
      with \<open>\<not> (0 < a \<and> ds = [])\<close> obtain c cs where ds: "ds = c # cs"
        by (cases ds) auto
      define w2 where "w2 = w\<lparr>stream := cs @ t # rest, avail := as, clock := us\<rparr>"
      have st: "stream w = c # (cs @ t # rest)" using Suc.prems(3) ds by simp
      have acc: "accepted acc c" "all_accepted (acc @ [c]) cs"
        using Suc.prems(1) ds by simp_all
      have step: "parse_loop end_time acc w = parse_loop end_time (acc @ [c]) w2"
        using parse_loop_accept [OF av True st acc(1) ck, of end_time] u by (simp add: w2_def)
      have "arrivals w (Suc k) = 1 + arrivals w2 k"
        using av True by (simp add: arrivals_def w2_def)
      with Suc.prems ds have p: "stream w2 = cs @ t # rest" "k \<le> length (avail w2)" "length cs < arrivals w2 k"
        "k - 1 \<le> length (clock w2)" "\<forall>u \<in> set (take (k - 1) (clock w2)). u < end_time"
        using av ck c7 by (simp_all add: w2_def)
      have na: "\<not> accepted ((acc @ [c]) @ cs) t" using Suc.prems(2) ds by simp
      from Suc.IH [OF acc(2) na p] step ds show ?thesis by simp
    qed
  qed
qed

lemma is_digit_minus: "\<not> is_digit (CHR ''-'')"
  by (simp add: is_digit_def)

lemma all_accepted_digits: "\<forall>c \<in> set ds. is_digit c \<Longrightarrow> all_accepted acc ds"
  by (induction ds arbitrary: acc) (simp_all add: accepted_def)

lemma decimal_snoc: "decimal (ds @ [c]) = 10 * decimal ds + digit_value c"
  by (simp add: decimal_def digit_value_def)

lemma positional_snoc: "positional (ds @ [c]) = 10 * positional ds + digit_value c"
proof -
  let ?n = "length ds"
  have "map (\<lambda>i. digit_value ((ds @ [c]) ! i) * 10 ^ (?n - i)) [0..<?n] =
        map (\<lambda>i. 10 * (digit_value (ds ! i) * 10 ^ (?n - Suc i))) [0..<?n]"
  proof (rule map_cong [OF refl])
    fix i assume "i \<in> set [0..<?n]"
    then have i: "i < ?n" by simp
    then have "?n - i = Suc (?n - Suc i)" by simp
    then have "(10::int) ^ (?n - i) = 10 * 10 ^ (?n - Suc i)" by simp
    with i show "digit_value ((ds @ [c]) ! i) * 10 ^ (?n - i) =
        10 * (digit_value (ds ! i) * 10 ^ (?n - Suc i))"
      by (simp add: nth_append)
  qed
  then have "sum_list (map (\<lambda>i. digit_value ((ds @ [c]) ! i) * 10 ^ (?n - i)) [0..<?n]) =
        sum_list (map (\<lambda>i. 10 * (digit_value (ds ! i) * 10 ^ (?n - Suc i))) [0..<?n])"
    by (rule arg_cong)
  also have "\<dots> = 10 * sum_list (map (\<lambda>i. digit_value (ds ! i) * 10 ^ (?n - Suc i)) [0..<?n])"
    by (rule sum_list_const_mult)
  finally have E: "sum_list (map (\<lambda>i. digit_value ((ds @ [c]) ! i) * 10 ^ (?n - i)) [0..<?n]) =
        10 * sum_list (map (\<lambda>i. digit_value (ds ! i) * 10 ^ (?n - Suc i)) [0..<?n])" .
  show ?thesis
    by (simp add: positional_def E)
qed

lemma decimal_positional: "decimal ds = positional ds"
proof (induction ds rule: rev_induct)
  case Nil
  show ?case by (simp add: decimal_def positional_def)
next
  case (snoc c ds)
  then show ?case by (simp add: decimal_snoc positional_snoc)
qed

lemma to_double_exact: "v < 2 ^ 53 \<Longrightarrow> to_double v = Some v"
  by (simp add: to_double_def)

lemma parseInt_numeral:
  assumes "sign = [] \<or> sign = ''-''" "digits \<noteq> []" "\<forall>c \<in> set digits. is_digit c"
  shows "scan_result (sign @ digits) \<noteq> NaN \<and>
         (positional digits < 2 ^ 53 \<longrightarrow>
            scan_result (sign @ digits) =
              (if sign = [] then Num (positional digits)
               else if positional digits = 0 then NegZero
               else Num (- positional digits)))"
proof -
  have tw: "takeWhile is_digit digits = digits"
    using assms(3) by simp
  from assms(2) obtain d ds where d: "digits = d # ds" by (cases digits) auto
  with assms(3) have "is_digit d" by simp
  with is_digit_minus have dm: "d \<noteq> CHR ''-''" by auto
  have h: "hd digits \<noteq> CHR ''-''" "digits \<noteq> ''-''" using d dm by simp_all
  have ne: "sign @ digits \<noteq> []" "sign @ digits \<noteq> ''-''"
    using assms(1,2) h(2) by auto
  have pos: "parseInt digits =
      (case to_double (positional digits) of None \<Rightarrow> PosInfinity | Some v \<Rightarrow> Num v)"
    using assms(2) h(1)
    by (simp add: parseInt_def Let_def tw decimal_positional split: option.splits)
  have neg: "parseInt (CHR ''-'' # digits) =
      (case to_double (positional digits) of None \<Rightarrow> NegInfinity
       | Some v \<Rightarrow> if v = 0 then NegZero else Num (- v))"
    using assms(2)
    by (simp add: parseInt_def Let_def tw decimal_positional split: option.splits)
  from assms(1) show ?thesis
  proof
    assume s: "sign = []"
    with ne pos show ?thesis
      by (auto simp: scan_result_def to_double_exact split: option.splits)
  next
    assume s: "sign = ''-''"
    with ne neg show ?thesis
      by (auto simp: scan_result_def to_double_exact split: option.splits)
  qed
qed

text \<open>
  From \<open>2 ^ 53\<close> on the number returned is the nearest double, not always the integer
  written: \<open>2 ^ 53 + 1\<close> becomes \<open>2 ^ 53\<close>. A negated 0 is negative zero.
\<close>
lemma parseInt_is_a_double:
  "parseInt ''9007199254740993'' = Num 9007199254740992 \<and>
   parseInt ''9007199254740995'' = Num 9007199254740996 \<and>
   parseInt ''-0'' = NegZero \<and>
   positional ''9007199254740993'' = 9007199254740993"
  by code_simp

text \<open>
  Claim C8. Let the stream hold an optional \<^verbatim>\<open>"-"\<close>, then one or more decimal digits that
  write an integer below \<open>2 ^ 53\<close> (where a double holds every integer), then a byte \<open>t\<close>
  that is not a digit (a further \<^verbatim>\<open>"-"\<close> is such a byte), then \<open>rest\<close>; and let the reads find
  these bytes before the deadline. Then \<^verbatim>\<open>parseNumber\<close> returns the integer the digits
  write, the sum of the digits times their powers of ten, negated after a leading \<^verbatim>\<open>"-"\<close>
  (negative zero for a negated 0), and the stream left is \<open>rest\<close>: the terminating byte \<open>t\<close>
  has been read and dropped.
\<close>
theorem parseNumber_scans_decimal:
  assumes "0 \<le> T" and "clock w = t0 # ts"
    and "stream w = sign @ digits @ t # rest"
    and "sign = [] \<or> sign = ''-''" and "digits \<noteq> []" and "\<forall>c \<in> set digits. is_digit c"
    and "positional digits < 2 ^ 53"
    and "\<not> is_digit t"
    and "k \<le> length (avail w)" and "length (sign @ digits) < arrivals w k"
    and "k - 1 \<le> length ts" and "\<forall>u \<in> set (take (k - 1) ts). u < t0 + T"
  shows "\<exists>w'. parseNumber T w =
            Some (Inr (if sign = [] then Num (positional digits)
                       else if positional digits = 0 then NegZero
                       else Num (- positional digits)), w') \<and>
          stream w' = rest"
proof -
  define w0 where "w0 = w\<lparr>clock := ts\<rparr>"
  have rt: "runningTime w = Some (t0, w0)"
    using assms(2) by (simp add: runningTime_def w0_def)
  have aa: "all_accepted [] (sign @ digits)"
    using assms(4) all_accepted_digits [OF assms(6)] by (auto simp: accepted_def)
  have nt: "\<not> accepted ([] @ sign @ digits) t"
    using assms(5,8) by (simp add: accepted_def)
  have p: "stream w0 = (sign @ digits) @ t # rest" "k \<le> length (avail w0)"
    "length (sign @ digits) < arrivals w0 k" "k - 1 \<le> length (clock w0)"
    "\<forall>u \<in> set (take (k - 1) (clock w0)). u < t0 + T"
    using assms(3,9,10,11,12) by (simp_all add: w0_def arrivals_def)
  from parse_loop_forward [OF aa nt p] obtain w' where
    "parse_loop (t0 + T) [] w0 = Some (scan_result (sign @ digits), w')" "stream w' = rest"
    by auto
  with rt assms(1,7) parseInt_numeral [OF assms(4,5,6)] show ?thesis
    by (simp add: parseNumber_def)
qed

text \<open>
  The bytes \<^verbatim>\<open>"1", "2", "3", "a", "b"\<close> give 123 and leave \<^verbatim>\<open>"b"\<close>; the bytes
  \<^verbatim>\<open>"-", "4", "5", "-", "7"\<close> give -45 and leave \<^verbatim>\<open>"7"\<close>.
\<close>
theorem parseNumber_scans_decimal_witness:
  "(\<exists>w'. parseNumber 500 \<lparr>stream = ''123ab'', avail = [1, 0, 1, 4, 1, 1], clock = [0, 1, 2, 3, 4, 5]\<rparr>
        = Some (Inr (Num 123), w') \<and> stream w' = ''b'') \<and>
   (\<exists>w'. parseNumber 500 \<lparr>stream = ''-45-7'', avail = [2, 2, 2, 2], clock = [0, 1, 2, 3, 4]\<rparr>
        = Some (Inr (Num (- 45)), w') \<and> stream w' = ''7'')"
proof -
  have v: "positional ''123'' = 123" "positional ''45'' = 45"
    by (simp_all add: positional_def digit_value_def)
  have a: "\<exists>w'. parseNumber 500 \<lparr>stream = ''123ab'', avail = [1, 0, 1, 4, 1, 1], clock = [0, 1, 2, 3, 4, 5]\<rparr>
        = Some (Inr (Num 123), w') \<and> stream w' = ''b''"
    using parseNumber_scans_decimal [where T = 500 and ?t0.0 = 0 and ts = "[1, 2, 3, 4, 5]"
      and sign = "[]" and digits = "''123''" and t = "CHR ''a''" and rest = "''b''" and k = 5
      and w = "\<lparr>stream = ''123ab'', avail = [1, 0, 1, 4, 1, 1], clock = [0, 1, 2, 3, 4, 5]\<rparr>"]
    by (simp add: is_digit_def arrivals_def v)
  have b: "\<exists>w'. parseNumber 500 \<lparr>stream = ''-45-7'', avail = [2, 2, 2, 2], clock = [0, 1, 2, 3, 4]\<rparr>
        = Some (Inr (Num (- 45)), w') \<and> stream w' = ''7''"
    using parseNumber_scans_decimal [where T = 500 and ?t0.0 = 0 and ts = "[1, 2, 3, 4]"
      and sign = "''-''" and digits = "''45''" and t = "CHR ''-''" and rest = "''7''" and k = 4
      and w = "\<lparr>stream = ''-45-7'', avail = [2, 2, 2, 2], clock = [0, 1, 2, 3, 4]\<rparr>"]
    by (simp add: is_digit_def arrivals_def v)
  from a b show ?thesis by blast
qed

lemma parse_loop_outcome:
  "parse_loop end_time acc w = Some (r, w') \<Longrightarrow>
   (\<exists>ds t. stream w = ds @ t # stream w' \<and> all_accepted acc ds \<and> \<not> accepted (acc @ ds) t \<and>
            r = scan_result (acc @ ds)) \<or>
   (\<exists>ds us u. stream w = ds @ stream w' \<and> all_accepted acc ds \<and> r = NaN \<and>
            clock w = us @ u # clock w' \<and> end_time \<le> u \<and> (\<forall>v \<in> set us. v < end_time))"
proof (induction end_time acc w rule: parse_loop.induct)
  case (1 end_time acc w)
  from "1.prems" obtain a as where av: "avail w = a # as"
    by (cases "avail w") (auto simp: parse_loop.simps [of end_time acc w] readBuffer_def)
  define n where "n = min 1 a"
  define w1 where "w1 = w\<lparr>stream := drop n (stream w), avail := as\<rparr>"
  have rd: "readBuffer 1 w = Some (take n (stream w), w1)"
    using readBuffer1_Cons [OF av] by (simp add: n_def w1_def)
  show ?case
  proof (cases "take n (stream w) = []")
    case True
    note empty = True
    then have same: "stream w1 = stream w" by (auto simp: w1_def)
    from "1.prems" rd empty obtain u us where ck: "clock w = u # us"
      by (cases "clock w")
         (auto simp: parse_loop.simps [of end_time acc w] runningTime_def pause_def w1_def)
    define w2 where "w2 = w1\<lparr>clock := us\<rparr>"
    have rt: "runningTime (pause 1 w1) = Some (u, w2)"
      using ck by (simp add: runningTime_def pause_def w1_def w2_def)
    have unf: "parse_loop end_time acc w =
        (if u < end_time then parse_loop end_time acc w2 else Some (NaN, w2))"
      using rd empty rt by (subst parse_loop.simps) simp
    show ?thesis
    proof (cases "u < end_time")
      case True
      with unf "1.prems" have rec: "parse_loop end_time acc w2 = Some (r, w')" by simp
      from "1.IH"(1) [OF rd refl empty rt refl True rec]
      have "(\<exists>ds t. stream w2 = ds @ t # stream w' \<and> all_accepted acc ds \<and> \<not> accepted (acc @ ds) t \<and>
            r = scan_result (acc @ ds)) \<or>
        (\<exists>ds us u. stream w2 = ds @ stream w' \<and> all_accepted acc ds \<and> r = NaN \<and>
            clock w2 = us @ u # clock w' \<and> end_time \<le> u \<and> (\<forall>v \<in> set us. v < end_time))" .
      then show ?thesis
      proof
        assume "\<exists>ds t. stream w2 = ds @ t # stream w' \<and> all_accepted acc ds \<and> \<not> accepted (acc @ ds) t \<and>
            r = scan_result (acc @ ds)"
        then show ?thesis using same by (simp add: w2_def)
      next
        assume "\<exists>ds us u. stream w2 = ds @ stream w' \<and> all_accepted acc ds \<and> r = NaN \<and>
            clock w2 = us @ u # clock w' \<and> end_time \<le> u \<and> (\<forall>v \<in> set us. v < end_time)"
        then obtain ds vs v where d: "stream w2 = ds @ stream w'" "all_accepted acc ds" "r = NaN"
            "clock w2 = vs @ v # clock w'" "end_time \<le> v" "\<forall>x \<in> set vs. x < end_time" by blast
        have "clock w = (u # vs) @ v # clock w'"
          using d(4) ck by (simp add: w2_def w1_def)
        moreover have "\<forall>x \<in> set (u # vs). x < end_time" using d(6) True by simp
        moreover have "stream w = ds @ stream w'" using d(1) same by (simp add: w2_def)
        ultimately show ?thesis using d(2,3,5) by blast
      qed
    next
      case False
      with unf "1.prems" have r: "r = NaN" "w' = w2" by simp_all
      have "stream w = [] @ stream w'" "clock w = [] @ u # clock w'"
        using same ck by (simp_all add: r w2_def w1_def)
      with r False show ?thesis
        by (intro disjI2 exI [of _ "[]"] exI [of _ u]) auto
    qed
  next
    case False
    note nonempty = False
    then obtain c rest where st: "stream w = c # rest" and n1: "n = 1"
      by (cases "stream w"; cases n) (auto simp: n_def min_def split: if_splits)
    have dat: "take n (stream w) = [c]" "stream w1 = rest"
      using st n1 by (simp_all add: w1_def)
    show ?thesis
    proof (cases "accepted acc c")
      case False
      then have "parse_loop end_time acc w = Some (scan_result acc, w1)"
        using rd dat by (subst parse_loop.simps) (simp add: scan_result_def)
      with "1.prems" have r: "r = scan_result acc" "w' = w1" by simp_all
      have "stream w = [] @ c # stream w'" using st dat r by simp
      with False r show ?thesis
        by (intro disjI1 exI [of _ "[]"] exI [of _ c]) auto
    next
      case True
      note ac = True
      have hd: "hd (take n (stream w)) = c" using dat by simp
      from "1.prems" rd dat ac obtain u us where ck: "clock w = u # us"
        by (cases "clock w")
           (auto simp: parse_loop.simps [of end_time acc w] runningTime_def w1_def)
      define w2 where "w2 = w1\<lparr>clock := us\<rparr>"
      have rt: "runningTime w1 = Some (u, w2)"
        using ck by (simp add: runningTime_def w1_def w2_def)
      have unf: "parse_loop end_time acc w =
          (if u < end_time then parse_loop end_time (acc @ [c]) w2 else Some (NaN, w2))"
        using rd dat ac rt by (subst parse_loop.simps) simp
      show ?thesis
      proof (cases "u < end_time")
        case False
        with unf "1.prems" have r: "r = NaN" "w' = w2" by simp_all
        have "stream w = [c] @ stream w'" "clock w = [] @ u # clock w'" "all_accepted acc [c]"
          using st dat ck ac by (simp_all add: r w2_def w1_def)
        with r False show ?thesis
          by (intro disjI2 exI [of _ "[c]"] exI [of _ "[]"] exI [of _ u]) auto
      next
        case True
        with unf "1.prems" have rec: "parse_loop end_time (acc @ [c]) w2 = Some (r, w')" by simp
        have ac': "accepted acc (hd (take n (stream w)))" using ac hd by simp
        from "1.IH"(2) [OF rd refl nonempty refl ac' rt refl True] rec hd
        have "(\<exists>ds t. stream w2 = ds @ t # stream w' \<and> all_accepted (acc @ [c]) ds \<and>
              \<not> accepted ((acc @ [c]) @ ds) t \<and> r = scan_result ((acc @ [c]) @ ds)) \<or>
          (\<exists>ds us u. stream w2 = ds @ stream w' \<and> all_accepted (acc @ [c]) ds \<and> r = NaN \<and>
              clock w2 = us @ u # clock w' \<and> end_time \<le> u \<and> (\<forall>v \<in> set us. v < end_time))"
          by simp
        then show ?thesis
        proof
          assume "\<exists>ds t. stream w2 = ds @ t # stream w' \<and> all_accepted (acc @ [c]) ds \<and>
              \<not> accepted ((acc @ [c]) @ ds) t \<and> r = scan_result ((acc @ [c]) @ ds)"
          then obtain ds t where d: "stream w2 = ds @ t # stream w'" "all_accepted (acc @ [c]) ds"
              "\<not> accepted ((acc @ [c]) @ ds) t" "r = scan_result ((acc @ [c]) @ ds)" by blast
          have "stream w = (c # ds) @ t # stream w'" "all_accepted acc (c # ds)"
            using d(1,2) st dat ac by (simp_all add: w2_def)
          with d(3,4) show ?thesis
            by (intro disjI1 exI [of _ "c # ds"] exI [of _ t]) simp
        next
          assume "\<exists>ds us u. stream w2 = ds @ stream w' \<and> all_accepted (acc @ [c]) ds \<and> r = NaN \<and>
              clock w2 = us @ u # clock w' \<and> end_time \<le> u \<and> (\<forall>v \<in> set us. v < end_time)"
          then obtain ds vs v where d: "stream w2 = ds @ stream w'" "all_accepted (acc @ [c]) ds" "r = NaN"
              "clock w2 = vs @ v # clock w'" "end_time \<le> v" "\<forall>x \<in> set vs. x < end_time" by blast
          have "stream w = (c # ds) @ stream w'" "all_accepted acc (c # ds)"
            "clock w = (u # vs) @ v # clock w'" "\<forall>x \<in> set (u # vs). x < end_time"
            using d(1,2,4,6) st dat ac ck True by (simp_all add: w2_def w1_def)
          with d(3,5) show ?thesis
            by (intro disjI2 exI [of _ "c # ds"] exI [of _ "u # vs"] exI [of _ v]) simp
        qed
      qed
    qed
  qed
qed

lemma parse_loop_returns:
  "n < length (avail w) \<Longrightarrow> n < length (clock w) \<Longrightarrow> end_time \<le> clock w ! n \<Longrightarrow>
   parse_loop end_time acc w \<noteq> None"
proof (induction n arbitrary: w acc)
  case 0
  then obtain a as u us where "avail w = a # as" "clock w = u # us" "end_time \<le> u"
    by (cases "avail w"; cases "clock w") auto
  then show ?case
    by (subst parse_loop.simps)
       (simp add: readBuffer_def runningTime_def pause_def Let_def)
next
  case (Suc n)
  then obtain a as u us where w: "avail w = a # as" "clock w = u # us"
    by (cases "avail w"; cases "clock w") auto
  define d where "d = take (min 1 a) (stream w)"
  define w1 where "w1 = w\<lparr>stream := drop (min 1 a) (stream w), avail := as\<rparr>"
  define w2 where "w2 = w1\<lparr>clock := us\<rparr>"
  have rd: "readBuffer 1 w = Some (d, w1)"
    using readBuffer1_Cons [OF w(1)] by (simp add: d_def w1_def)
  have rt: "runningTime w1 = Some (u, w2)" "pause 1 w1 = w1"
    using w(2) by (simp_all add: runningTime_def pause_def w1_def w2_def)
  have IH: "parse_loop end_time acc' w2 \<noteq> None" for acc'
    using Suc.IH [of w2 acc'] Suc.prems w by (simp add: w2_def w1_def)
  show ?case
    using IH rd rt by (subst parse_loop.simps) (simp add: Let_def)
qed

lemma all_accepted_later: "all_accepted acc ds \<Longrightarrow> acc \<noteq> [] \<Longrightarrow> \<forall>c \<in> set ds. is_digit c"
  by (induction ds arbitrary: acc) (auto simp: accepted_def)

lemma scan_result_value:
  assumes "all_accepted [] ds" "ds \<noteq> []" "ds \<noteq> ''-''"
  shows "scan_result ds \<noteq> NaN \<and> (magnitude ds < 2 ^ 53 \<longrightarrow> scan_result ds = written ds)"
proof -
  from assms(2) obtain c cs where ds: "ds = c # cs" by (cases ds) auto
  with assms(1) have c: "c = CHR ''-'' \<or> is_digit c" and cs: "\<forall>x \<in> set cs. is_digit x"
    using all_accepted_later [of "[c]" cs] by (auto simp: accepted_def)
  show ?thesis
  proof (cases "c = CHR ''-''")
    case True
    with assms(3) ds have "cs \<noteq> []" by simp
    from parseInt_numeral [of "''-''" cs, OF _ this cs] True ds show ?thesis
      by (simp add: magnitude_def written_def)
  next
    case False
    with c cs ds have "\<forall>x \<in> set ds. is_digit x" by simp
    from parseInt_numeral [of "[]" ds, OF _ assms(2) this] False ds show ?thesis
      by (simp add: magnitude_def written_def)
  qed
qed

text \<open>
  Claim C9. Every return of \<^verbatim>\<open>parseNumber\<close> with a timeout that is not negative is of one of
  two kinds. Either a terminating byte \<open>t\<close> was read after the accepted text \<open>ds\<close>: the result is
  the failure value \<^verbatim>\<open>NaN\<close> when \<open>ds\<close> is empty or only \<^verbatim>\<open>"-"\<close> (no digits); otherwise it is
  not \<^verbatim>\<open>NaN\<close>, and it is the integer that \<open>ds\<close> writes when that is below \<open>2 ^ 53\<close> in
  magnitude. Or no terminating byte was read and the last clock value tested had reached
  the deadline: the result is \<^verbatim>\<open>NaN\<close> (timeout). Both failures are the same value \<^verbatim>\<open>NaN\<close> in
  the code. The call does return once the clock reaches the deadline.
\<close>
theorem parseNumber_outcomes:
  assumes "0 \<le> T" and "clock w = t0 # ts"
  shows "(\<forall>res w'. parseNumber T w = Some (res, w') \<longrightarrow>
            (\<exists>ds t r. stream w = ds @ t # stream w' \<and> all_accepted [] ds \<and> \<not> accepted ds t \<and>
                res = Inr r \<and>
                (if ds = [] \<or> ds = ''-'' then r = NaN
                 else r \<noteq> NaN \<and> (magnitude ds < 2 ^ 53 \<longrightarrow> r = written ds))) \<or>
            (\<exists>ds us u. stream w = ds @ stream w' \<and> all_accepted [] ds \<and>
                ts = us @ u # clock w' \<and> t0 + T \<le> u \<and> (\<forall>v \<in> set us. v < t0 + T) \<and>
                res = Inr NaN)) \<and>
         ((\<exists>n. n < length (avail w) \<and> n < length ts \<and> t0 + T \<le> ts ! n) \<longrightarrow>
            (\<exists>res w'. parseNumber T w = Some (res, w')))"
proof (intro conjI allI impI)
  define w0 where "w0 = w\<lparr>clock := ts\<rparr>"
  have rt: "runningTime w = Some (t0, w0)"
    using assms(2) by (simp add: runningTime_def w0_def)
  fix res w' assume a: "parseNumber T w = Some (res, w')"
  with assms(1) rt obtain r where r: "parse_loop (t0 + T) [] w0 = Some (r, w')" "res = Inr r"
    by (auto simp: parseNumber_def split: option.splits)
  from parse_loop_outcome [OF r(1)]
  show "(\<exists>ds t r. stream w = ds @ t # stream w' \<and> all_accepted [] ds \<and> \<not> accepted ds t \<and>
                res = Inr r \<and>
                (if ds = [] \<or> ds = ''-'' then r = NaN
                 else r \<noteq> NaN \<and> (magnitude ds < 2 ^ 53 \<longrightarrow> r = written ds))) \<or>
            (\<exists>ds us u. stream w = ds @ stream w' \<and> all_accepted [] ds \<and>
                ts = us @ u # clock w' \<and> t0 + T \<le> u \<and> (\<forall>v \<in> set us. v < t0 + T) \<and>
                res = Inr NaN)"
  proof
    assume "\<exists>ds t. stream w0 = ds @ t # stream w' \<and> all_accepted [] ds \<and> \<not> accepted ([] @ ds) t \<and>
            r = scan_result ([] @ ds)"
    then obtain ds t where d: "stream w0 = ds @ t # stream w'" "all_accepted [] ds"
        "\<not> accepted ds t" "r = scan_result ds" by auto
    have "if ds = [] \<or> ds = ''-'' then r = NaN
          else r \<noteq> NaN \<and> (magnitude ds < 2 ^ 53 \<longrightarrow> r = written ds)"
    proof (cases "ds = [] \<or> ds = ''-''")
      case True
      with d(4) show ?thesis by (auto simp: scan_result_def)
    next
      case False
      with scan_result_value [OF d(2)] d(4) show ?thesis by simp
    qed
    with d r(2) have "\<exists>ds t r. stream w = ds @ t # stream w' \<and> all_accepted [] ds \<and>
        \<not> accepted ds t \<and> res = Inr r \<and>
        (if ds = [] \<or> ds = ''-'' then r = NaN
         else r \<noteq> NaN \<and> (magnitude ds < 2 ^ 53 \<longrightarrow> r = written ds))"
      by (intro exI [of _ ds] exI [of _ t] exI [of _ r]) (simp add: w0_def)
    then show ?thesis by (rule disjI1)
  next
    assume "\<exists>ds us u. stream w0 = ds @ stream w' \<and> all_accepted [] ds \<and> r = NaN \<and>
            clock w0 = us @ u # clock w' \<and> t0 + T \<le> u \<and> (\<forall>v \<in> set us. v < t0 + T)"
    with r(2) show ?thesis by (auto simp: w0_def)
  qed
next
  define w0 where "w0 = w\<lparr>clock := ts\<rparr>"
  have rt: "runningTime w = Some (t0, w0)"
    using assms(2) by (simp add: runningTime_def w0_def)
  assume "\<exists>n. n < length (avail w) \<and> n < length ts \<and> t0 + T \<le> ts ! n"
  then obtain n where "n < length (avail w0)" "n < length (clock w0)" "t0 + T \<le> clock w0 ! n"
    by (auto simp: w0_def)
  from parse_loop_returns [OF this, of "[]"] obtain r w' where
    "parse_loop (t0 + T) [] w0 = Some (r, w')" by auto
  with rt assms(1) show "\<exists>res w'. parseNumber T w = Some (res, w')"
    by (simp add: parseNumber_def)
qed

text \<open>
  The bytes \<^verbatim>\<open>"-", "x"\<close> give \<^verbatim>\<open>NaN\<close> on the terminating byte; with no byte arriving the
  call gives \<^verbatim>\<open>NaN\<close> at the deadline; the bytes \<^verbatim>\<open>"-", "7", "0", ","\<close> give -70.
\<close>
theorem parseNumber_outcomes_witness:
  "parseNumber 100 \<lparr>stream = ''-x'', avail = [1, 1], clock = [0, 1, 2]\<rparr>
     = Some (Inr NaN, \<lparr>stream = [], avail = [], clock = [2]\<rparr>) \<and>
   ((\<exists>ds t r. ''-x'' = ds @ [t] \<and> all_accepted [] ds \<and> \<not> accepted ds t \<and>
        (Inr NaN :: fault + number) = Inr r \<and>
        (if ds = [] \<or> ds = ''-'' then r = NaN
         else r \<noteq> NaN \<and> (magnitude ds < 2 ^ 53 \<longrightarrow> r = written ds))) \<or>
    (\<exists>ds us u. ''-x'' = ds \<and> all_accepted [] ds \<and> [1, 2] = us @ [u, 2] \<and> 0 + 100 \<le> u \<and>
        (\<forall>v \<in> set us. v < 0 + 100))) \<and>
   (\<exists>res w'. parseNumber 3 \<lparr>stream = [], avail = [1, 0, 1, 1, 1], clock = [0, 1, 2, 3, 4]\<rparr> = Some (res, w')) \<and>
   parseNumber 3 \<lparr>stream = [], avail = [1, 0, 1, 1, 1], clock = [0, 1, 2, 3, 4]\<rparr>
     = Some (Inr NaN, \<lparr>stream = [], avail = [1, 1], clock = [4]\<rparr>) \<and>
   parseNumber 100 \<lparr>stream = ''-70,'', avail = [4, 4, 4, 4], clock = [0, 1, 2, 3]\<rparr>
     = Some (Inr (Num (- 70)), \<lparr>stream = [], avail = [], clock = []\<rparr>) \<and>
   written ''-70'' = Num (- 70)"
proof -
  let ?w = "\<lparr>stream = ''-x'', avail = [1, 1], clock = [0, 1, 2]\<rparr>"
  let ?w' = "\<lparr>stream = [], avail = [], clock = [2]\<rparr>"
  let ?v = "\<lparr>stream = [], avail = [1, 0, 1, 1, 1], clock = [0, 1, 2, 3, 4]\<rparr>"
  have e: "parseNumber 100 ?w = Some (Inr NaN, ?w')"
    by code_simp
  have e2: "parseNumber 3 ?v = Some (Inr NaN, \<lparr>stream = [], avail = [1, 1], clock = [4]\<rparr>)"
    by code_simp
  have e3: "parseNumber 100 \<lparr>stream = ''-70,'', avail = [4, 4, 4, 4], clock = [0, 1, 2, 3]\<rparr>
     = Some (Inr (Num (- 70)), \<lparr>stream = [], avail = [], clock = []\<rparr>)"
    by code_simp
  have e4: "written ''-70'' = Num (- 70)"
    by (simp add: written_def magnitude_def positional_def digit_value_def)
  have h: "\<exists>n. n < length (avail ?v) \<and> n < length [1, 2, 3, 4 :: int] \<and> 0 + 3 \<le> [1, 2, 3, 4 :: int] ! n"
    by (rule exI [of _ 2]) simp
  from parseNumber_outcomes [of 100 ?w 0 "[1, 2]", THEN conjunct1, rule_format, OF _ _ e]
    parseNumber_outcomes [of 3 ?v 0 "[1, 2, 3, 4]", THEN conjunct2, rule_format, OF _ _ h] e e2 e3 e4
  show ?thesis by simp
qed

section \<open>Runs that show the missing write-back and the missing check\<close>

text \<open>
  Claim C2 at pattern \<^verbatim>\<open>"ABAB"\<close>. After the bytes \<^verbatim>\<open>"A", "B"\<close> the stored offset of
  \<^verbatim>\<open>multiFindUtil\<close> is 2; after \<^verbatim>\<open>"A", "B", "C"\<close> it is still 2, although the prefix of length
  2 does not end the consumed bytes, where \<^verbatim>\<open>singleFindUtil\<close> is back at 0. The bytes
  \<^verbatim>\<open>"A", "B", "C", "A", "B"\<close> are then reported as a match.
\<close>
theorem stored_offset_is_stale:
  "multi_data [''ABAB''] [0] ''AB'' = Carry [2] \<and>
   multi_data [''ABAB''] [0] ''ABC'' = Carry [2] \<and>
   \<not> suffix (take 2 ''ABAB'') ''ABC'' \<and>
   single_data ''ABAB'' 0 ''ABC'' = Carry 0 \<and>
   multi_data [''ABAB''] [0] ''ABCAB'' = Return 0"
proof -
  have s: "single_data ''ABAB'' 0 ''ABC'' = Carry 0"
    by code_simp
  have m: "multi_data [''ABAB''] [0] ''AB'' = Carry [2]"
    "multi_data [''ABAB''] [0] ''ABC'' = Carry [2]"
    "multi_data [''ABAB''] [0] ''ABCAB'' = Return 0"
    by code_simp+
  have "\<not> suffix (take 2 ''ABAB'') ''ABC''"
    by (simp add: suffix_Cons)
  with s m show ?thesis by simp
qed

text \<open>
  Claim C3 at target \<^verbatim>\<open>"AB"\<close> and the bytes \<^verbatim>\<open>"A", "C", "B"\<close>: \<^verbatim>\<open>singleFindUtil\<close> returns
  \<^verbatim>\<open>false\<close> at the deadline, \<^verbatim>\<open>multiFindUtil\<close> with the one target returns 0.
\<close>
theorem single_and_multi_disagree:
  "singleFindUtil ''AB'' 100 \<lparr>stream = ''ACB'', avail = [3], clock = [0, 100]\<rparr>
     = Some (Inr False, \<lparr>stream = [], avail = [], clock = []\<rparr>) \<and>
   multiFindUtil [''AB''] 100 \<lparr>stream = ''ACB'', avail = [3], clock = [0, 100]\<rparr>
     = Some (Inr 0, \<lparr>stream = [], avail = [], clock = [100]\<rparr>)"
  by code_simp

text \<open>
  Claim C7 at targets \<^verbatim>\<open>["OK", ""]\<close>: \<^verbatim>\<open>multiFindUtil\<close> does not throw; it reads the stream
  and returns \<open>-1\<close> at the deadline. \<^verbatim>\<open>singleFindUtil\<close> throws on the empty target and leaves
  the world untouched.
\<close>
theorem empty_pattern_is_not_rejected:
  "multiFindUtil [''OK'', ''''] 0 \<lparr>stream = ''x'', avail = [1], clock = [0, 0]\<rparr>
     = Some (Inr (- 1), \<lparr>stream = [], avail = [], clock = []\<rparr>) \<and>
   singleFindUtil '''' 0 \<lparr>stream = ''x'', avail = [1], clock = [0, 0]\<rparr>
     = Some (Inl (Throw ''Error: 'singleFindUtil' function, invalid parameters.''),
             \<lparr>stream = ''x'', avail = [1], clock = [0, 0]\<rparr>)"
  by code_simp

end
